theory Spec2Isabelle
  imports Complex_Main "HOL-Library.Multiset"
begin

section \<open>Data model\<close>

text \<open>
  The geometric core of \<^verbatim>\<open>src/image_to_scan/core.py\<close>. A contour vertex is a pair of
  pixel coordinates. The pipeline hands \<^verbatim>\<open>order_points\<close> the vertices that
  \<^verbatim>\<open>cv2.approxPolyDP\<close> produced, an integer array, so a coordinate is an \<open>int\<close>;
  \<^verbatim>\<open>pts.sum(axis=1)\<close> and \<^verbatim>\<open>np.diff(pts, axis=1)\<close> are then exact. The array
  \<^verbatim>\<open>rect\<close> holds the chosen vertices as \<^verbatim>\<open>float32\<close>, and
  \<^verbatim>\<open>four_point_transform\<close> computes the edge lengths from it in \<^verbatim>\<open>float32\<close>: the
  model converts the coordinates where the lengths are computed and rounds every
  intermediate result (section \<open>float32 arithmetic\<close>).

  A raster is represented by its size, width first as in the \<^verbatim>\<open>dsize\<close> argument of
  \<^verbatim>\<open>cv2.warpPerspective\<close>: the pixels play no part in the sizes that the code computes.
\<close>

type_synonym point = "int \<times> int"

type_synonym contour = "point list"

type_synonym image = "int \<times> int"

text \<open>The 4 x 2 array \<^verbatim>\<open>rect\<close>, unpacked by the source as \<^verbatim>\<open>(tl, tr, br, bl) = rect\<close>.\<close>

type_synonym rect = "point \<times> point \<times> point \<times> point"

text \<open>The Python exceptions that the modelled code can raise.\<close>

datatype py_error = ValueError | IndexError

section \<open>numpy and list primitives\<close>

text \<open>
  \<^verbatim>\<open>np.argmin\<close> over a flat array: one left-to-right scan that keeps the smallest value
  seen and its position, replacing them only on a strictly smaller value. On an empty
  array numpy raises \<^verbatim>\<open>ValueError\<close>.
\<close>

fun argmin_scan :: "int list \<Rightarrow> nat \<Rightarrow> int \<Rightarrow> nat \<Rightarrow> nat" where
  "argmin_scan [] i mv mi = mi"
| "argmin_scan (x # xs) i mv mi =
     (if x < mv then argmin_scan xs (Suc i) x i else argmin_scan xs (Suc i) mv mi)"

definition argmin :: "int list \<Rightarrow> py_error + nat" where
  "argmin xs = (case xs of [] \<Rightarrow> Inl ValueError | x # rest \<Rightarrow> Inr (argmin_scan rest 1 x 0))"

fun argmax_scan :: "int list \<Rightarrow> nat \<Rightarrow> int \<Rightarrow> nat \<Rightarrow> nat" where
  "argmax_scan [] i mv mi = mi"
| "argmax_scan (x # xs) i mv mi =
     (if mv < x then argmax_scan xs (Suc i) x i else argmax_scan xs (Suc i) mv mi)"

definition argmax :: "int list \<Rightarrow> py_error + nat" where
  "argmax xs = (case xs of [] \<Rightarrow> Inl ValueError | x # rest \<Rightarrow> Inr (argmax_scan rest 1 x 0))"

section \<open>order_points\<close>

text \<open>\<^verbatim>\<open>pts.sum(axis=1)\<close>: one entry \<open>x + y\<close> per row.\<close>

definition sum_axis1 :: "point list \<Rightarrow> int list" where
  "sum_axis1 pts = map (\<lambda>p. fst p + snd p) pts"

text \<open>\<^verbatim>\<open>np.diff(pts, axis=1)\<close>: one entry \<open>y - x\<close> per row.\<close>

definition diff_axis1 :: "point list \<Rightarrow> int list" where
  "diff_axis1 pts = map (\<lambda>p. snd p - fst p) pts"

text \<open>
  \<^verbatim>\<open>order_points(pts)\<close>, lines 34-55. The four reads \<^verbatim>\<open>pts[np.argmin(s)]\<close> ... use an
  index that \<^verbatim>\<open>argmin\<close>/\<^verbatim>\<open>argmax\<close> returned for an array as long as \<^verbatim>\<open>pts\<close>, so
  they are in range (lemma \<open>argmin_first_min\<close> below); the only exception is the
  \<^verbatim>\<open>ValueError\<close> of an empty array.
\<close>

definition order_points :: "point list \<Rightarrow> py_error + rect" where
  "order_points pts =
     (let s = sum_axis1 pts in
      case argmin s of Inl e \<Rightarrow> Inl e | Inr i0 \<Rightarrow>
     (case argmax s of Inl e \<Rightarrow> Inl e | Inr i2 \<Rightarrow>
     (let diff = diff_axis1 pts in
      case argmin diff of Inl e \<Rightarrow> Inl e | Inr i1 \<Rightarrow>
     (case argmax diff of Inl e \<Rightarrow> Inl e | Inr i3 \<Rightarrow>
      Inr (pts ! i0, pts ! i1, pts ! i2, pts ! i3)))))"

text \<open>
  Position \<open>i\<close> holds the smallest (largest) value of \<open>xs\<close> and no earlier position
  holds the same value: the first occurrence of the minimum (maximum).
\<close>

definition first_min :: "int list \<Rightarrow> nat \<Rightarrow> bool" where
  "first_min xs i \<longleftrightarrow>
     i < length xs \<and> list_all (\<lambda>v. xs ! i \<le> v) xs \<and> list_all (\<lambda>v. xs ! i < v) (take i xs)"

definition first_max :: "int list \<Rightarrow> nat \<Rightarrow> bool" where
  "first_max xs i \<longleftrightarrow>
     i < length xs \<and> list_all (\<lambda>v. v \<le> xs ! i) xs \<and> list_all (\<lambda>v. v < xs ! i) (take i xs)"

section \<open>findLargestCountours\<close>

text \<open>
  Python's \<^verbatim>\<open>max(xs)\<close> over a list of ints (\<^verbatim>\<open>ValueError\<close> on the empty list),
  \<^verbatim>\<open>xs.index(v)\<close> (position of the first element equal to \<open>v\<close>, \<^verbatim>\<open>ValueError\<close>
  when there is none), \<^verbatim>\<open>xs[i]\<close> and \<^verbatim>\<open>xs.pop(i)\<close> (\<^verbatim>\<open>IndexError\<close> out of range).
  The positions used here come from \<^verbatim>\<open>index\<close>, so they are never negative.
\<close>

definition py_max :: "int list \<Rightarrow> py_error + int" where
  "py_max xs = (case xs of [] \<Rightarrow> Inl ValueError | x # rest \<Rightarrow> Inr (fold max rest x))"

primrec py_index :: "int list \<Rightarrow> int \<Rightarrow> py_error + nat" where
  "py_index [] v = Inl ValueError"
| "py_index (x # xs) v =
     (if x = v then Inr 0
      else case py_index xs v of Inl e \<Rightarrow> Inl e | Inr i \<Rightarrow> Inr (Suc i))"

definition py_getitem :: "'a list \<Rightarrow> nat \<Rightarrow> py_error + 'a" where
  "py_getitem xs i = (if i < length xs then Inr (xs ! i) else Inl IndexError)"

definition py_pop :: "'a list \<Rightarrow> nat \<Rightarrow> py_error + 'a list" where
  "py_pop xs i = (if i < length xs then Inr (take i xs @ drop (Suc i) xs) else Inl IndexError)"

text \<open>
  The four lists that \<^verbatim>\<open>findLargestCountours\<close> works on. \<^verbatim>\<open>cntList\<close> and
  \<^verbatim>\<open>cntWidths\<close> are the caller's list objects, which \<^verbatim>\<open>pop\<close> changes in place:
  their value in the final state is what the caller's lists hold after the call.
\<close>

record 'c selector_state =
  cntList :: "'c list"
  cntWidths :: "int list"
  newCntList :: "'c list"
  newCntWidths :: "int list"

text \<open>
  One extraction, lines 113-121 (and again, word for word, lines 124-132): find the
  position of the largest width, append the entries at that position to the new lists,
  pop them from the old ones.
\<close>

definition extract_largest :: "'c selector_state \<Rightarrow> py_error + 'c selector_state" where
  "extract_largest st =
     (case py_max (cntWidths st) of Inl e \<Rightarrow> Inl e | Inr m \<Rightarrow>
     (case py_index (cntWidths st) m of Inl e \<Rightarrow> Inl e | Inr pos \<Rightarrow>
     (case py_getitem (cntList st) pos of Inl e \<Rightarrow> Inl e | Inr c \<Rightarrow>
     (case py_getitem (cntWidths st) pos of Inl e \<Rightarrow> Inl e | Inr w \<Rightarrow>
     (case py_pop (cntList st) pos of Inl e \<Rightarrow> Inl e | Inr cl \<Rightarrow>
     (case py_pop (cntWidths st) pos of Inl e \<Rightarrow> Inl e | Inr cw \<Rightarrow>
      Inr \<lparr>cntList = cl, cntWidths = cw,
           newCntList = newCntList st @ [c], newCntWidths = newCntWidths st @ [w]\<rparr>))))))"

text \<open>
  \<^verbatim>\<open>findLargestCountours(cntList, cntWidths)\<close>, lines 108-136. The function returns
  \<^verbatim>\<open>(newCntList, newCntWidths)\<close>; the model returns the whole final state, whose other
  two fields are the argument lists as the call leaves them.
\<close>

definition findLargestCountours :: "'c list \<Rightarrow> int list \<Rightarrow> py_error + 'c selector_state" where
  "findLargestCountours cl cw =
     (case extract_largest \<lparr>cntList = cl, cntWidths = cw, newCntList = [], newCntWidths = []\<rparr> of
        Inl e \<Rightarrow> Inl e
      | Inr st \<Rightarrow> extract_largest st)"


section \<open>float32 arithmetic\<close>

text \<open>
  Lines 72-81 work on \<^verbatim>\<open>float32\<close> scalars: \<^verbatim>\<open>rect\<close> is created with
  \<^verbatim>\<open>dtype="float32"\<close>, and the difference, the square, the sum and \<^verbatim>\<open>np.sqrt\<close> of
  \<^verbatim>\<open>float32\<close> scalars are \<^verbatim>\<open>float32\<close> again. Up to the square root every value is
  an integer, so a \<^verbatim>\<open>float32\<close> value is modelled by that integer and an operation by
  the exact integer operation followed by rounding to 24 significant bits, to nearest
  and ties to even (IEEE 754 binary32, each operation correctly rounded). The exponent
  range is not modelled: a pixel coordinate is far from overflowing it.

  \<open>bit_length n\<close> is the number of binary digits of a positive \<open>n\<close>.
\<close>

function bit_length :: "int \<Rightarrow> nat" where
  "bit_length n = (if n \<le> 0 then 0 else Suc (bit_length (n div 2)))"
  by pat_completeness auto
termination
  by (relation "measure nat") auto

declare bit_length.simps [simp del]

text \<open>The multiple of \<open>u\<close> nearest to \<open>n\<close>, as a count of units; a tie goes to the even count.\<close>

definition round_half_even :: "int \<Rightarrow> int \<Rightarrow> int" where
  "round_half_even n u =
     (let q = n div u; r = n mod u
      in if 2 * r < u \<or> (2 * r = u \<and> even q) then q else q + 1)"

text \<open>
  Rounding a non-negative integer to \<^verbatim>\<open>float32\<close>: below \<open>2 ^ 24\<close> every integer is
  representable; an integer of \<open>b > 24\<close> binary digits is rounded to a multiple of
  \<open>2 ^ (b - 24)\<close>. \<open>f32_int\<close> extends it to negative integers by symmetry.
\<close>

definition f32_round :: "int \<Rightarrow> int" where
  "f32_round n =
     (if n < 2 ^ 24 then n
      else (let u = 2 ^ (bit_length n - 24) in round_half_even n u * u))"

definition f32_int :: "int \<Rightarrow> int" where
  "f32_int n = (if n < 0 then - f32_round (- n) else f32_round n)"

text \<open>The integer square root, two binary digits at a time.\<close>

function floor_sqrt :: "int \<Rightarrow> int" where
  "floor_sqrt n =
     (if n < 1 then 0
      else (let r = 2 * floor_sqrt (n div 4)
            in if (r + 1) * (r + 1) \<le> n then r + 1 else r))"
  by pat_completeness auto
termination
  by (relation "measure nat") auto

declare floor_sqrt.simps [simp del]

text \<open>
  \<^verbatim>\<open>np.sqrt\<close> of a \<^verbatim>\<open>float32\<close> holding the integer \<open>n\<close>: the \<^verbatim>\<open>float32\<close> nearest to
  the square root. With \<open>4 ^ e \<le> n < 4 ^ (e + 1)\<close> the root lies in
  \<open>[2 ^ e, 2 ^ (e + 1))\<close>, where the \<^verbatim>\<open>float32\<close> numbers are the multiples of
  \<open>2 ^ (e - 23)\<close>; the result is \<open>m\<close> such multiples, \<open>m\<close> the integer nearest to the
  root of \<open>n / 4 ^ (e - 23)\<close>. That integer is \<open>s\<close> or \<open>s + 1\<close>, \<open>s\<close> the integer root,
  and it is \<open>s\<close> when the radicand is below \<open>(s + 1/2)\<^sup>2 = s\<^sup>2 + s + 1/4\<close>.
\<close>

definition f32_sqrt :: "int \<Rightarrow> real" where
  "f32_sqrt n =
     (if n \<le> 0 then 0
      else (let e = (bit_length n - 1) div 2 in
        if e \<le> 23 then
          (let N = n * 4 ^ (23 - e); s = floor_sqrt N;
               m = (if N \<le> s * s + s then s else s + 1)
           in real_of_int m / 2 ^ (23 - e))
        else
          (let D = 4 ^ (e - 23); N = n div D; s = floor_sqrt N;
               m = (if N < s * s + s \<or>
                       (N = s * s + s \<and>
                          (4 * (n mod D) < D \<or> (4 * (n mod D) = D \<and> even s)))
                    then s else s + 1)
           in real_of_int (m * 2 ^ (e - 23)))))"

section \<open>four_point_transform\<close>

text \<open>
  \<^verbatim>\<open>np.sqrt(((a[0] - b[0]) ** 2) + ((a[1] - b[1]) ** 2))\<close> on two rows of \<^verbatim>\<open>rect\<close>:
  the coordinates converted to \<^verbatim>\<open>float32\<close>, then each operation rounded. The result is
  the real number that the \<^verbatim>\<open>float32\<close> holds. Python's \<^verbatim>\<open>int(x)\<close> truncates it
  towards zero.
\<close>

definition edge_length :: "point \<Rightarrow> point \<Rightarrow> real" where
  "edge_length a b =
     (let dx = f32_int (f32_int (fst a) - f32_int (fst b));
          dy = f32_int (f32_int (snd a) - f32_int (snd b))
      in f32_sqrt (f32_int (f32_int (dx * dx) + f32_int (dy * dy))))"

definition py_int :: "real \<Rightarrow> int" where
  "py_int r = (if 0 \<le> r then \<lfloor>r\<rfloor> else \<lceil>r\<rceil>)"

text \<open>
  Lines 72-74 and 79-81, on the unpacked \<^verbatim>\<open>(tl, tr, br, bl) = rect\<close> (primed here:
  \<open>tl\<close> is the tail of a list in HOL).
\<close>

definition maxWidth :: "rect \<Rightarrow> int" where
  "maxWidth r = (case r of (tl', tr', br', bl') \<Rightarrow>
     (let widthA = edge_length br' bl'; widthB = edge_length tr' tl'
      in max (py_int widthA) (py_int widthB)))"

definition maxHeight :: "rect \<Rightarrow> int" where
  "maxHeight r = (case r of (tl', tr', br', bl') \<Rightarrow>
     (let heightA = edge_length tr' br'; heightB = edge_length tl' bl'
      in max (py_int heightA) (py_int heightB)))"

text \<open>
  \<^verbatim>\<open>cv2.warpPerspective(image, M, dsize)\<close> allocates its result with the size
  \<^verbatim>\<open>dsize\<close>, unless \<^verbatim>\<open>dsize\<close> is empty (a width or a height of 0 or less): then the
  result has the size of the source image.
\<close>

definition warpPerspective_size :: "image \<Rightarrow> int \<times> int \<Rightarrow> int \<times> int" where
  "warpPerspective_size src sz = (if fst sz \<le> 0 \<or> snd sz \<le> 0 then src else sz)"

text \<open>
  The raster that \<^verbatim>\<open>four_point_transform(image, pts)\<close> returns is the result of
  \<^verbatim>\<open>cv2.warpPerspective(image, M, (maxWidth, maxHeight))\<close> with
  \<^verbatim>\<open>M = cv2.getPerspectiveTransform(rect, dst)\<close>. The model records what the code hands
  to the two calls, the ordered source corners, the destination corners and the
  requested size, and the size of the raster that comes back. The calls themselves are
  taken to succeed.
\<close>

record warped =
  src_rect :: rect
  dst_rect :: rect
  dsize :: "int \<times> int"
  raster_size :: "int \<times> int"

definition four_point_transform :: "image \<Rightarrow> point list \<Rightarrow> py_error + warped" where
  "four_point_transform img pts =
     (case order_points pts of Inl e \<Rightarrow> Inl e | Inr r \<Rightarrow>
        Inr \<lparr>src_rect = r,
             dst_rect = ((0, 0), (maxWidth r - 1, 0),
                         (maxWidth r - 1, maxHeight r - 1), (0, maxHeight r - 1)),
             dsize = (maxWidth r, maxHeight r),
             raster_size = warpPerspective_size img (maxWidth r, maxHeight r)\<rparr>)"

text \<open>
  The destination size as the specification words it: the floor of the larger of the two
  opposing Euclidean edge lengths, \<open>widthTop = |TR - TL|\<close>, \<open>widthBottom = |BR - BL|\<close>,
  \<open>heightLeft = |TL - BL|\<close>, \<open>heightRight = |TR - BR|\<close>.
\<close>

definition euclid :: "real \<times> real \<Rightarrow> real \<times> real \<Rightarrow> real" where
  "euclid p q = sqrt ((fst p - fst q)\<^sup>2 + (snd p - snd q)\<^sup>2)"

definition real_point :: "point \<Rightarrow> real \<times> real" where
  "real_point p = (real_of_int (fst p), real_of_int (snd p))"

definition spec_destWidth :: "rect \<Rightarrow> int" where
  "spec_destWidth r = (case r of (TL, TR, BR, BL) \<Rightarrow>
     \<lfloor>max (euclid (real_point TR) (real_point TL)) (euclid (real_point BR) (real_point BL))\<rfloor>)"

definition spec_destHeight :: "rect \<Rightarrow> int" where
  "spec_destHeight r = (case r of (TL, TR, BR, BL) \<Rightarrow>
     \<lfloor>max (euclid (real_point TL) (real_point BL)) (euclid (real_point TR) (real_point BR))\<rfloor>)"


text \<open>
  An edge whose length the \<^verbatim>\<open>float32\<close> computation gets right to the pixel: the
  coordinates of its ends are below \<open>2 ^ 24\<close> in absolute value and its squared length
  is below \<open>2 ^ 24\<close> (an edge shorter than 4096 pixels), so that no intermediate result
  is rounded before the square root. \<open>short_edges\<close> says so of the four edges that
  \<^verbatim>\<open>four_point_transform\<close> measures.
\<close>

definition short_edge :: "point \<Rightarrow> point \<Rightarrow> bool" where
  "short_edge a b \<longleftrightarrow>
     \<bar>fst a\<bar> < 2 ^ 24 \<and> \<bar>snd a\<bar> < 2 ^ 24 \<and> \<bar>fst b\<bar> < 2 ^ 24 \<and> \<bar>snd b\<bar> < 2 ^ 24 \<and>
     (fst a - fst b) * (fst a - fst b) + (snd a - snd b) * (snd a - snd b) < 2 ^ 24"

definition short_edges :: "rect \<Rightarrow> bool" where
  "short_edges r = (case r of (tl', tr', br', bl') \<Rightarrow>
     short_edge br' bl' \<and> short_edge tr' tl' \<and> short_edge tr' br' \<and> short_edge tl' bl')"

section \<open>convert_object\<close>

text \<open>
  The part of \<^verbatim>\<open>convert_object\<close> after contour tracing, lines 201-277. Its input is the
  list \<^verbatim>\<open>cnts\<close> (contours by descending area), each contour given by the two things the
  code asks the image library about it: the polygon \<^verbatim>\<open>approx\<close> of
  \<^verbatim>\<open>cv2.approxPolyDP\<close> and the width \<^verbatim>\<open>W\<close> of \<^verbatim>\<open>cv2.boundingRect\<close>.

  The loop of lines 204-215 keeps the polygons with exactly four vertices.
\<close>

fun collect_screens :: "(contour \<times> int) list \<Rightarrow> contour list \<Rightarrow> int list \<Rightarrow> contour list \<times> int list" where
  "collect_screens [] screenCntList scrWidths = (screenCntList, scrWidths)"
| "collect_screens ((approx, W) # cnts) screenCntList scrWidths =
     (if length approx = 4
      then collect_screens cnts (screenCntList @ [approx]) (scrWidths @ [W])
      else collect_screens cnts screenCntList scrWidths)"

text \<open>\<^verbatim>\<open>screenCntList[0].reshape(4, 2)\<close>: numpy raises \<^verbatim>\<open>ValueError\<close> unless there are 8 numbers.\<close>

definition reshape_4_2 :: "contour \<Rightarrow> py_error + point list" where
  "reshape_4_2 c = (if length c = 4 then Inr c else Inl ValueError)"


text \<open>
  The value \<^verbatim>\<open>convert_object\<close> returns: Python's \<^verbatim>\<open>None\<close> is \<open>None\<close>; an image is
  \<open>Some\<close> of the warp it was resampled by and its final size (\<^verbatim>\<open>screen_size\<close> when the
  caller gave one, the size of the warped raster otherwise). Grey-scale conversion,
  histogram equalisation, the debug windows and \<^verbatim>\<open>save_image\<close> change neither. The
  first argument is the image that \<^verbatim>\<open>cv2.imread(file_path)\<close> returned (\<open>img\<close>
  here: \<open>image\<close> is the image of a set in HOL).
\<close>

record scan =
  frame :: warped
  out_size :: "int \<times> int"

definition convert_object :: "image \<Rightarrow> (contour \<times> int) list \<Rightarrow> (int \<times> int) option \<Rightarrow> py_error + scan option" where
  "convert_object img cnts screen_size =
     (case collect_screens cnts [] [] of (screenCntList0, scrWidths0) \<Rightarrow>
     (case findLargestCountours screenCntList0 scrWidths0 of Inl e \<Rightarrow> Inl e | Inr st \<Rightarrow>
     (let screenCntList = newCntList st; scrWidths = newCntWidths st in
      if \<not> length screenCntList \<ge> 2 then Inr None
      else
       (case py_getitem scrWidths 0 of Inl e \<Rightarrow> Inl e | Inr w0 \<Rightarrow>
       (case py_getitem scrWidths 1 of Inl e \<Rightarrow> Inl e | Inr w1 \<Rightarrow>
        if w0 \<noteq> w1 then Inr None
        else
         (case py_getitem screenCntList 0 of Inl e \<Rightarrow> Inl e | Inr c \<Rightarrow>
         (case reshape_4_2 c of Inl e \<Rightarrow> Inl e | Inr pts \<Rightarrow>
         (case order_points pts of Inl e \<Rightarrow> Inl e | Inr logged \<Rightarrow>
         (case four_point_transform img pts of Inl e \<Rightarrow> Inl e | Inr w \<Rightarrow>
          Inr (Some \<lparr>frame = w,
                     out_size = (case screen_size of None \<Rightarrow> raster_size w | Some s \<Rightarrow> s)\<rparr>))))))))))"

text \<open>
  The two largest widths as the specification words them: the first two entries of the
  widths in descending order.
\<close>

definition descending :: "int list \<Rightarrow> int list" where
  "descending ws = rev (sort ws)"

definition four_vertex_widths :: "(contour \<times> int) list \<Rightarrow> int list" where
  "four_vertex_widths cnts = map snd (filter (\<lambda>c. length (fst c) = 4) cnts)"

definition four_vertex_polygons :: "(contour \<times> int) list \<Rightarrow> contour list" where
  "four_vertex_polygons cnts = map fst (filter (\<lambda>c. length (fst c) = 4) cnts)"


text \<open>
  The candidate that the pipeline rectifies, in the specification's words the first
  among the four-vertex candidates of the largest width: \<open>first_index\<close> is the position
  of the first entry equal to a value that occurs in the list.
\<close>

primrec first_index :: "int list \<Rightarrow> int \<Rightarrow> nat" where
  "first_index [] v = 0"
| "first_index (x # xs) v = (if x = v then 0 else Suc (first_index xs v))"

definition largest_candidate :: "(contour \<times> int) list \<Rightarrow> contour" where
  "largest_candidate cnts =
     four_vertex_polygons cnts !
       first_index (four_vertex_widths cnts) (Max (set (four_vertex_widths cnts)))"

section \<open>Properties of the scans\<close>

lemma argmin_scan_first_min:
  assumes "length pre = i" and "first_min pre mi" and "pre ! mi = mv"
  shows "first_min (pre @ xs) (argmin_scan xs i mv mi)"
  using assms
proof (induction xs arbitrary: pre i mv mi)
  case Nil
  then show ?case by simp
next
  case (Cons x xs)
  have mi_lt: "mi < length pre"
    using Cons.prems(2) by (simp add: first_min_def)
  show ?case
  proof (cases "x < mv")
    case True
    have "first_min (pre @ [x]) i"
      using Cons.prems True mi_lt
      by (auto simp: first_min_def list_all_iff nth_append)
    then have "first_min ((pre @ [x]) @ xs) (argmin_scan xs (Suc i) x i)"
      using Cons.prems(1) by (intro Cons.IH) (simp_all add: nth_append)
    with True show ?thesis by simp
  next
    case False
    have "first_min (pre @ [x]) mi"
      using Cons.prems False mi_lt
      by (auto simp: first_min_def list_all_iff nth_append)
    then have "first_min ((pre @ [x]) @ xs) (argmin_scan xs (Suc i) mv mi)"
      using Cons.prems mi_lt by (intro Cons.IH) (simp_all add: nth_append)
    with False show ?thesis by simp
  qed
qed

lemma argmin_first_min:
  assumes "xs \<noteq> []"
  shows "\<exists>i. argmin xs = Inr i \<and> first_min xs i"
proof -
  from assms obtain x rest where xs: "xs = x # rest"
    by (cases xs) auto
  have "first_min [x] 0"
    by (simp add: first_min_def)
  then have "first_min ([x] @ rest) (argmin_scan rest 1 x 0)"
    by (intro argmin_scan_first_min) simp_all
  then show ?thesis
    by (simp add: xs argmin_def)
qed

lemma argmax_scan_first_max:
  assumes "length pre = i" and "first_max pre mi" and "pre ! mi = mv"
  shows "first_max (pre @ xs) (argmax_scan xs i mv mi)"
  using assms
proof (induction xs arbitrary: pre i mv mi)
  case Nil
  then show ?case by simp
next
  case (Cons x xs)
  have mi_lt: "mi < length pre"
    using Cons.prems(2) by (simp add: first_max_def)
  show ?case
  proof (cases "mv < x")
    case True
    have "first_max (pre @ [x]) i"
      using Cons.prems True mi_lt
      by (auto simp: first_max_def list_all_iff nth_append)
    then have "first_max ((pre @ [x]) @ xs) (argmax_scan xs (Suc i) x i)"
      using Cons.prems(1) by (intro Cons.IH) (simp_all add: nth_append)
    with True show ?thesis by simp
  next
    case False
    have "first_max (pre @ [x]) mi"
      using Cons.prems False mi_lt
      by (auto simp: first_max_def list_all_iff nth_append)
    then have "first_max ((pre @ [x]) @ xs) (argmax_scan xs (Suc i) mv mi)"
      using Cons.prems mi_lt by (intro Cons.IH) (simp_all add: nth_append)
    with False show ?thesis by simp
  qed
qed

lemma argmax_first_max:
  assumes "xs \<noteq> []"
  shows "\<exists>i. argmax xs = Inr i \<and> first_max xs i"
proof -
  from assms obtain x rest where xs: "xs = x # rest"
    by (cases xs) auto
  have "first_max [x] 0"
    by (simp add: first_max_def)
  then have "first_max ([x] @ rest) (argmax_scan rest 1 x 0)"
    by (intro argmax_scan_first_max) simp_all
  then show ?thesis
    by (simp add: xs argmax_def)
qed

lemma first_min_iff:
  "first_min xs i \<longleftrightarrow>
     i < length xs \<and> (\<forall>j<length xs. xs ! i \<le> xs ! j) \<and> (\<forall>j<i. xs ! i < xs ! j)"
  by (auto simp: first_min_def list_all_length)

lemma first_max_iff:
  "first_max xs i \<longleftrightarrow>
     i < length xs \<and> (\<forall>j<length xs. xs ! j \<le> xs ! i) \<and> (\<forall>j<i. xs ! j < xs ! i)"
  by (auto simp: first_max_def list_all_length)

lemma order_points_first:
  assumes "pts \<noteq> []"
  shows "\<exists>i0 i1 i2 i3.
           order_points pts = Inr (pts ! i0, pts ! i1, pts ! i2, pts ! i3) \<and>
           first_min (sum_axis1 pts) i0 \<and> first_min (diff_axis1 pts) i1 \<and>
           first_max (sum_axis1 pts) i2 \<and> first_max (diff_axis1 pts) i3"
proof -
  have s: "sum_axis1 pts \<noteq> []" and d: "diff_axis1 pts \<noteq> []"
    using assms by (simp_all add: sum_axis1_def diff_axis1_def)
  obtain i0 where i0: "argmin (sum_axis1 pts) = Inr i0" "first_min (sum_axis1 pts) i0"
    using argmin_first_min [OF s] by blast
  obtain i2 where i2: "argmax (sum_axis1 pts) = Inr i2" "first_max (sum_axis1 pts) i2"
    using argmax_first_max [OF s] by blast
  obtain i1 where i1: "argmin (diff_axis1 pts) = Inr i1" "first_min (diff_axis1 pts) i1"
    using argmin_first_min [OF d] by blast
  obtain i3 where i3: "argmax (diff_axis1 pts) = Inr i3" "first_max (diff_axis1 pts) i3"
    using argmax_first_max [OF d] by blast
  have "order_points pts = Inr (pts ! i0, pts ! i1, pts ! i2, pts ! i3)"
    by (simp add: order_points_def i0 i1 i2 i3)
  with i0 i1 i2 i3 show ?thesis
    by blast
qed

section \<open>order_points: the four slots\<close>

text \<open>
  Claim C2. For an input of exactly four points, in any order, \<open>order_points\<close> returns
  without raising, and each slot holds an input point chosen by position: slot 0 the
  point of least \<open>x + y\<close>, slot 2 the point of greatest \<open>x + y\<close>, slot 1 the point of
  least \<open>y - x\<close>, slot 3 the point of greatest \<open>y - x\<close>; among tied points the one at
  the smallest input position is taken (every earlier position is strictly worse).
\<close>

theorem order_points_slots:
  assumes "length pts = 4"
  shows "\<exists>i0 i1 i2 i3.
           order_points pts = Inr (pts ! i0, pts ! i1, pts ! i2, pts ! i3) \<and>
           i0 < 4 \<and> i1 < 4 \<and> i2 < 4 \<and> i3 < 4 \<and>
           (\<forall>j<4. fst (pts ! i0) + snd (pts ! i0) \<le> fst (pts ! j) + snd (pts ! j)) \<and>
           (\<forall>j<i0. fst (pts ! i0) + snd (pts ! i0) < fst (pts ! j) + snd (pts ! j)) \<and>
           (\<forall>j<4. fst (pts ! j) + snd (pts ! j) \<le> fst (pts ! i2) + snd (pts ! i2)) \<and>
           (\<forall>j<i2. fst (pts ! j) + snd (pts ! j) < fst (pts ! i2) + snd (pts ! i2)) \<and>
           (\<forall>j<4. snd (pts ! i1) - fst (pts ! i1) \<le> snd (pts ! j) - fst (pts ! j)) \<and>
           (\<forall>j<i1. snd (pts ! i1) - fst (pts ! i1) < snd (pts ! j) - fst (pts ! j)) \<and>
           (\<forall>j<4. snd (pts ! j) - fst (pts ! j) \<le> snd (pts ! i3) - fst (pts ! i3)) \<and>
           (\<forall>j<i3. snd (pts ! j) - fst (pts ! j) < snd (pts ! i3) - fst (pts ! i3))"
proof -
  from assms have "pts \<noteq> []"
    by auto
  from order_points_first [OF this] obtain i0 i1 i2 i3 where
    r: "order_points pts = Inr (pts ! i0, pts ! i1, pts ! i2, pts ! i3)" and
    m0: "first_min (sum_axis1 pts) i0" and m1: "first_min (diff_axis1 pts) i1" and
    m2: "first_max (sum_axis1 pts) i2" and m3: "first_max (diff_axis1 pts) i3"
    by blast
  have b: "i0 < 4" "i1 < 4" "i2 < 4" "i3 < 4"
    using m0 m1 m2 m3 assms
    by (simp_all add: first_min_iff first_max_iff sum_axis1_def diff_axis1_def)
  have p0: "(\<forall>j<4. fst (pts ! i0) + snd (pts ! i0) \<le> fst (pts ! j) + snd (pts ! j)) \<and>
           (\<forall>j<i0. fst (pts ! i0) + snd (pts ! i0) < fst (pts ! j) + snd (pts ! j))"
    using m0 assms b by (simp add: first_min_iff sum_axis1_def)
  have p2: "(\<forall>j<4. fst (pts ! j) + snd (pts ! j) \<le> fst (pts ! i2) + snd (pts ! i2)) \<and>
           (\<forall>j<i2. fst (pts ! j) + snd (pts ! j) < fst (pts ! i2) + snd (pts ! i2))"
    using m2 assms b by (simp add: first_max_iff sum_axis1_def)
  have p1: "(\<forall>j<4. snd (pts ! i1) - fst (pts ! i1) \<le> snd (pts ! j) - fst (pts ! j)) \<and>
           (\<forall>j<i1. snd (pts ! i1) - fst (pts ! i1) < snd (pts ! j) - fst (pts ! j))"
    using m1 assms b by (simp add: first_min_iff diff_axis1_def)
  have p3: "(\<forall>j<4. snd (pts ! j) - fst (pts ! j) \<le> snd (pts ! i3) - fst (pts ! i3)) \<and>
           (\<forall>j<i3. snd (pts ! j) - fst (pts ! j) < snd (pts ! i3) - fst (pts ! i3))"
    using m3 assms b by (simp add: first_max_iff diff_axis1_def)
  from r b p0 p1 p2 p3 show ?thesis
    by blast
qed

theorem order_points_slots_witness:
  "length ([(110, 60), (10, 60), (10, 10), (110, 10)] :: point list) = 4 \<and>
   (\<exists>i0 i1 i2 i3.
      order_points [(110, 60), (10, 60), (10, 10), (110, 10)] =
        Inr ([(110, 60), (10, 60), (10, 10), (110, 10)] ! i0,
             [(110, 60), (10, 60), (10, 10), (110, 10)] ! i1,
             [(110, 60), (10, 60), (10, 10), (110, 10)] ! i2,
             [(110, 60), (10, 60), (10, 10), (110, 10)] ! i3) \<and>
      i0 < 4 \<and> i1 < 4 \<and> i2 < 4 \<and> i3 < 4) \<and>
   order_points [(110, 60), (10, 60), (10, 10), (110, 10)] =
     Inr ((10, 10), (110, 10), (110, 60), (10, 60))"
proof -
  have len: "length ([(110, 60), (10, 60), (10, 10), (110, 10)] :: point list) = 4"
    by simp
  have val: "order_points [(110, 60), (10, 60), (10, 10), (110, 10)] =
     Inr ((10, 10), (110, 10), (110, 60), (10, 60))"
    by (simp add: order_points_def argmin_def argmax_def sum_axis1_def diff_axis1_def)
  from order_points_slots [OF len] obtain i0 i1 i2 i3 where
    "order_points [(110, 60), (10, 60), (10, 10), (110, 10)] =
        Inr ([(110, 60), (10, 60), (10, 10), (110, 10)] ! i0,
             [(110, 60), (10, 60), (10, 10), (110, 10)] ! i1,
             [(110, 60), (10, 60), (10, 10), (110, 10)] ! i2,
             [(110, 60), (10, 60), (10, 10), (110, 10)] ! i3)"
    "i0 < 4" "i1 < 4" "i2 < 4" "i3 < 4"
    by blast
  with len val show ?thesis
    by blast
qed

lemma first_min_less_length: "first_min xs i \<Longrightarrow> i < length xs"
  by (simp add: first_min_def)

lemma first_max_less_length: "first_max xs i \<Longrightarrow> i < length xs"
  by (simp add: first_max_def)

lemma order_points_members:
  assumes "pts \<noteq> []"
  shows "\<exists>a b c d. order_points pts = Inr (a, b, c, d) \<and>
           a \<in> set pts \<and> b \<in> set pts \<and> c \<in> set pts \<and> d \<in> set pts"
proof -
  from order_points_first [OF assms] obtain i0 i1 i2 i3 where
    r: "order_points pts = Inr (pts ! i0, pts ! i1, pts ! i2, pts ! i3)" and
    m0: "first_min (sum_axis1 pts) i0" and m1: "first_min (diff_axis1 pts) i1" and
    m2: "first_max (sum_axis1 pts) i2" and m3: "first_max (diff_axis1 pts) i3"
    by blast
  have "i0 < length pts" "i1 < length pts" "i2 < length pts" "i3 < length pts"
    using first_min_less_length [OF m0] first_min_less_length [OF m1]
      first_max_less_length [OF m2] first_max_less_length [OF m3]
    by (simp_all add: sum_axis1_def diff_axis1_def)
  then have "pts ! i0 \<in> set pts" "pts ! i1 \<in> set pts" "pts ! i2 \<in> set pts" "pts ! i3 \<in> set pts"
    by simp_all
  with r show ?thesis
    by blast
qed

lemma diamond_order:
  "order_points [(1, 0), (2, 1), (1, 2), (0, 1)] = Inr ((1, 0), (1, 0), (2, 1), (1, 2))"
  by (simp add: order_points_def argmin_def argmax_def sum_axis1_def diff_axis1_def)

text \<open>
  Claim C10. For an input of exactly four points every slot of the result is one of the
  input points, yet the result need not be a permutation of the input: on the diamond
  \<open>(1,0), (2,1), (1,2), (0,1)\<close>, four different points with tied sums and tied
  differences, the point \<open>(1,0)\<close> fills slots 0 and 1 and the point \<open>(0,1)\<close> is in
  no slot.
\<close>

theorem order_points_members_not_permutation:
  "(length pts = 4 \<longrightarrow>
      (\<exists>a b c d. order_points pts = Inr (a, b, c, d) \<and>
         a \<in> set pts \<and> b \<in> set pts \<and> c \<in> set pts \<and> d \<in> set pts)) \<and>
   (\<exists>qs a b c d. length qs = 4 \<and> distinct qs \<and>
      (\<not> distinct (sum_axis1 qs) \<or> \<not> distinct (diff_axis1 qs)) \<and>
      order_points qs = Inr (a, b, c, d) \<and> a = b \<and>
      (\<exists>q \<in> set qs. q \<noteq> a \<and> q \<noteq> b \<and> q \<noteq> c \<and> q \<noteq> d))"
proof (intro conjI impI)
  assume "length pts = 4"
  then have "pts \<noteq> []"
    by auto
  then show "\<exists>a b c d. order_points pts = Inr (a, b, c, d) \<and>
         a \<in> set pts \<and> b \<in> set pts \<and> c \<in> set pts \<and> d \<in> set pts"
    by (rule order_points_members)
next
  let ?qs = "[(1, 0), (2, 1), (1, 2), (0, 1)] :: point list"
  have "length ?qs = 4 \<and> distinct ?qs \<and>
      (\<not> distinct (sum_axis1 ?qs) \<or> \<not> distinct (diff_axis1 ?qs)) \<and>
      order_points ?qs = Inr ((1, 0), (1, 0), (2, 1), (1, 2)) \<and> ((1, 0) :: point) = (1, 0) \<and>
      (\<exists>q \<in> set ?qs. q \<noteq> (1, 0) \<and> q \<noteq> (1, 0) \<and> q \<noteq> (2, 1) \<and> q \<noteq> (1, 2))"
    by (simp add: diamond_order) (simp add: sum_axis1_def)
  then show "\<exists>qs a b c d. length qs = 4 \<and> distinct qs \<and>
      (\<not> distinct (sum_axis1 qs) \<or> \<not> distinct (diff_axis1 qs)) \<and>
      order_points qs = Inr (a, b, c, d) \<and> a = b \<and>
      (\<exists>q \<in> set qs. q \<noteq> a \<and> q \<noteq> b \<and> q \<noteq> c \<and> q \<noteq> d)"
    by blast
qed

theorem order_points_members_not_permutation_witness:
  "length ([(1, 0), (2, 1), (1, 2), (0, 1)] :: point list) = 4 \<and>
   (\<exists>a b c d. order_points [(1, 0), (2, 1), (1, 2), (0, 1)] = Inr (a, b, c, d) \<and>
      a \<in> set [(1, 0), (2, 1), (1, 2), (0, 1)] \<and> b \<in> set [(1, 0), (2, 1), (1, 2), (0, 1)] \<and>
      c \<in> set [(1, 0), (2, 1), (1, 2), (0, 1)] \<and> d \<in> set [(1, 0), (2, 1), (1, 2), (0, 1)])"
proof -
  have len: "length ([(1, 0), (2, 1), (1, 2), (0, 1)] :: point list) = 4"
    by simp
  from order_points_members_not_permutation [of "[(1, 0), (2, 1), (1, 2), (0, 1)]"] len
  show ?thesis
    by blast
qed

section \<open>Properties of findLargestCountours\<close>

lemma py_max_Max:
  assumes "xs \<noteq> []"
  shows "py_max xs = Inr (Max (set xs))"
proof (cases xs)
  case Nil
  with assms show ?thesis by simp
next
  case (Cons x rest)
  have "fold max rest x = Max (set (x # rest))"
    by (rule Max.set_eq_fold [symmetric])
  then show ?thesis
    by (simp add: Cons py_max_def)
qed

lemma py_index_member:
  "v \<in> set xs \<Longrightarrow>
     \<exists>i. py_index xs v = Inr i \<and> i < length xs \<and> xs ! i = v \<and>
         take i xs @ drop (Suc i) xs = remove1 v xs \<and> i = first_index xs v"
proof (induction xs)
  case Nil
  then show ?case by simp
next
  case (Cons x xs)
  show ?case
  proof (cases "x = v")
    case True
    then show ?thesis by simp
  next
    case False
    with Cons.prems have "v \<in> set xs"
      by simp
    from Cons.IH [OF this] obtain i where
      "py_index xs v = Inr i" "i < length xs" "xs ! i = v"
      "take i xs @ drop (Suc i) xs = remove1 v xs" "i = first_index xs v"
      by blast
    with False show ?thesis
      by simp
  qed
qed

lemma extract_largest_empty:
  assumes "cntWidths st = []"
  shows "extract_largest st = Inl ValueError"
  using assms by (simp add: extract_largest_def py_max_def)

lemma extract_largest_step:
  assumes "cntWidths st \<noteq> []" and "length (cntList st) = length (cntWidths st)"
  shows "\<exists>pos. pos < length (cntWidths st) \<and>
           pos = first_index (cntWidths st) (Max (set (cntWidths st))) \<and>
           cntWidths st ! pos = Max (set (cntWidths st)) \<and>
           extract_largest st =
             Inr \<lparr>cntList = take pos (cntList st) @ drop (Suc pos) (cntList st),
                  cntWidths = remove1 (Max (set (cntWidths st))) (cntWidths st),
                  newCntList = newCntList st @ [cntList st ! pos],
                  newCntWidths = newCntWidths st @ [Max (set (cntWidths st))]\<rparr>"
proof -
  let ?ws = "cntWidths st"
  let ?m = "Max (set ?ws)"
  have mx: "py_max ?ws = Inr ?m"
    using assms(1) by (rule py_max_Max)
  have "?m \<in> set ?ws"
    using assms(1) by (intro Max_in) simp_all
  from py_index_member [OF this] obtain pos where
    pos: "py_index ?ws ?m = Inr pos" "pos < length ?ws" "?ws ! pos = ?m"
      "take pos ?ws @ drop (Suc pos) ?ws = remove1 ?m ?ws" "pos = first_index ?ws ?m"
    by blast
  have "extract_largest st =
             Inr \<lparr>cntList = take pos (cntList st) @ drop (Suc pos) (cntList st),
                  cntWidths = remove1 ?m ?ws,
                  newCntList = newCntList st @ [cntList st ! pos],
                  newCntWidths = newCntWidths st @ [?m]\<rparr>"
    using pos assms(2) by (simp add: extract_largest_def mx py_getitem_def py_pop_def)
  with pos show ?thesis
    by blast
qed

lemma findLargestCountours_short:
  assumes "length cw < 2" and "length cl = length cw"
  shows "findLargestCountours cl cw = Inl ValueError"
proof (cases cw)
  case Nil
  then show ?thesis
    by (simp add: findLargestCountours_def extract_largest_empty)
next
  case (Cons w rest)
  with assms(1) have cw: "cw = [w]"
    by simp
  with assms(2) obtain c where cl: "cl = [c]"
    by (cases cl) auto
  show ?thesis
    by (simp add: cw cl findLargestCountours_def extract_largest_def py_max_def
        py_getitem_def py_pop_def)
qed

lemma mset_pop:
  assumes "i < length xs"
  shows "add_mset (xs ! i) (mset (take i xs @ drop (Suc i) xs)) = mset xs"
proof -
  have "xs = take i xs @ xs ! i # drop (Suc i) xs"
    using assms by (rule id_take_nth_drop)
  then have "mset xs = mset (take i xs @ xs ! i # drop (Suc i) xs)"
    by simp
  then show ?thesis
    by simp
qed

lemma findLargestCountours_two:
  assumes "2 \<le> length cw" and "length cl = length cw"
  shows "\<exists>st c1 c2. findLargestCountours cl cw = Inr st \<and>
           newCntWidths st = [Max (set cw), Max (set (remove1 (Max (set cw)) cw))] \<and>
           newCntList st = [c1, c2] \<and> c1 \<in> set cl \<and> c2 \<in> set cl \<and>
           c1 = cl ! first_index cw (Max (set cw)) \<and>
           cntWidths st = remove1 (Max (set (remove1 (Max (set cw)) cw))) (remove1 (Max (set cw)) cw) \<and>
           add_mset c1 (add_mset c2 (mset (cntList st))) = mset cl"
proof -
  let ?st0 = "\<lparr>cntList = cl, cntWidths = cw, newCntList = [], newCntWidths = []\<rparr>"
  let ?m1 = "Max (set cw)"
  let ?r = "remove1 ?m1 cw"
  let ?m2 = "Max (set ?r)"
  have ne: "cw \<noteq> []"
    using assms(1) by auto
  from extract_largest_step [of ?st0] ne assms(2) obtain p1 where
    p1: "p1 < length cw" "cw ! p1 = ?m1" "p1 = first_index cw ?m1" and
    e1: "extract_largest ?st0 =
           Inr \<lparr>cntList = take p1 cl @ drop (Suc p1) cl, cntWidths = ?r,
                newCntList = [cl ! p1], newCntWidths = [?m1]\<rparr>"
    by auto
  let ?cl1 = "take p1 cl @ drop (Suc p1) cl"
  let ?st1 = "\<lparr>cntList = ?cl1, cntWidths = ?r, newCntList = [cl ! p1], newCntWidths = [?m1]\<rparr>"
  have m1_in: "?m1 \<in> set cw"
    using ne by (intro Max_in) simp_all
  have len_r: "length ?r = length cw - 1"
    using m1_in by (simp add: length_remove1)
  have ne_r: "?r \<noteq> []"
    using len_r assms(1) by auto
  have len_cl1: "length ?cl1 = length ?r"
    using p1 assms(2) len_r by simp
  from extract_largest_step [of ?st1] ne_r len_cl1 obtain p2 where
    p2: "p2 < length ?r" and
    e2: "extract_largest ?st1 =
           Inr \<lparr>cntList = take p2 ?cl1 @ drop (Suc p2) ?cl1, cntWidths = remove1 ?m2 ?r,
                newCntList = [cl ! p1, ?cl1 ! p2], newCntWidths = [?m1, ?m2]\<rparr>"
    by auto
  let ?st2 = "\<lparr>cntList = take p2 ?cl1 @ drop (Suc p2) ?cl1, cntWidths = remove1 ?m2 ?r,
                newCntList = [cl ! p1, ?cl1 ! p2], newCntWidths = [?m1, ?m2]\<rparr>"
  have res: "findLargestCountours cl cw = Inr ?st2"
    by (simp add: findLargestCountours_def e1 e2)
  have p1_cl: "p1 < length cl"
    using p1 assms(2) by simp
  have p2_cl1: "p2 < length ?cl1"
    using p2 len_cl1 by simp
  have ms1: "add_mset (cl ! p1) (mset ?cl1) = mset cl"
    using p1_cl by (rule mset_pop)
  have ms2: "add_mset (?cl1 ! p2) (mset (take p2 ?cl1 @ drop (Suc p2) ?cl1)) = mset ?cl1"
    using p2_cl1 by (rule mset_pop)
  have ms: "add_mset (cl ! p1) (add_mset (?cl1 ! p2) (mset (cntList ?st2))) = mset cl"
    using ms1 ms2 by simp
  have c1: "cl ! p1 \<in> set cl"
    using p1_cl by simp
  have "?cl1 ! p2 \<in> set ?cl1"
    using p2_cl1 by (rule nth_mem)
  moreover have "set ?cl1 \<subseteq> set cl"
    using set_take_subset [of p1 cl] set_drop_subset [of "Suc p1" cl] by auto
  ultimately have c2: "?cl1 ! p2 \<in> set cl"
    by blast
  show ?thesis
    using res ms c1 c2 p1(3)
    by (intro exI [of _ ?st2] exI [of _ "cl ! p1"] exI [of _ "?cl1 ! p2"]) simp
qed

lemma descending_Cons:
  assumes "ws \<noteq> []"
  shows "descending ws = Max (set ws) # descending (remove1 (Max (set ws)) ws)"
proof -
  let ?m = "Max (set ws)"
  let ?r = "remove1 ?m ws"
  have m_in: "?m \<in> set ws"
    using assms by (intro Max_in) simp_all
  have ms: "mset (sort ?r @ [?m]) = mset ws"
    using m_in by simp
  have "\<forall>x \<in> set ?r. x \<le> ?m"
    using set_remove1_subset [of ?m ws] by (auto intro: Max_ge)
  then have "sorted (sort ?r @ [?m])"
    by (simp add: sorted_append)
  with ms have "sort ws = sort ?r @ [?m]"
    by (rule properties_for_sort)
  then show ?thesis
    by (simp add: descending_def)
qed

lemma descending_two:
  assumes "2 \<le> length ws"
  shows "descending ws ! 0 = Max (set ws) \<and>
         descending ws ! 1 = Max (set (remove1 (Max (set ws)) ws))"
proof -
  let ?m = "Max (set ws)"
  let ?r = "remove1 ?m ws"
  have ne: "ws \<noteq> []"
    using assms by auto
  then have "?m \<in> set ws"
    by (intro Max_in) simp_all
  then have "length ?r = length ws - 1"
    by (simp add: length_remove1)
  with assms have ne_r: "?r \<noteq> []"
    by auto
  show ?thesis
    using descending_Cons [OF ne] descending_Cons [OF ne_r] by simp
qed

lemma length_remove1_member:
  assumes "x \<in> set xs"
  shows "length (remove1 x xs) + 1 = length xs"
  using assms length_pos_if_in_set [OF assms] by (simp add: length_remove1)

text \<open>
  Claim C8. \<open>findLargestCountours\<close> is not pure: each extraction pops the extracted entry
  from both argument lists (lines 120-121 and 131-132, "removing it from old"). Given at
  least two candidates, the call returns the two extracted candidates and their widths,
  and leaves the caller's two lists two entries shorter: the width list without the two
  extracted widths, the candidate list without the two extracted candidates.
\<close>

theorem findLargestCountours_pops_arguments:
  assumes "2 \<le> length cw" and "length cl = length cw"
  shows "\<exists>st c1 c2. findLargestCountours cl cw = Inr st \<and>
           newCntList st = [c1, c2] \<and>
           newCntWidths st = [Max (set cw), Max (set (remove1 (Max (set cw)) cw))] \<and>
           cntWidths st = remove1 (Max (set (remove1 (Max (set cw)) cw))) (remove1 (Max (set cw)) cw) \<and>
           add_mset c1 (add_mset c2 (mset (cntList st))) = mset cl \<and>
           length (cntList st) + 2 = length cl \<and> length (cntWidths st) + 2 = length cw \<and>
           cntList st \<noteq> cl \<and> cntWidths st \<noteq> cw"
proof -
  let ?m1 = "Max (set cw)"
  let ?r = "remove1 ?m1 cw"
  let ?m2 = "Max (set ?r)"
  from findLargestCountours_two [OF assms] obtain st c1 c2 where
    res: "findLargestCountours cl cw = Inr st" and
    nw: "newCntWidths st = [?m1, ?m2]" and nl: "newCntList st = [c1, c2]" and
    cw': "cntWidths st = remove1 ?m2 ?r" and
    ms: "add_mset c1 (add_mset c2 (mset (cntList st))) = mset cl"
    by blast
  have ne: "cw \<noteq> []"
    using assms(1) by auto
  then have m1_in: "?m1 \<in> set cw"
    by (intro Max_in) simp_all
  then have len_r: "length ?r + 1 = length cw"
    by (rule length_remove1_member)
  with assms(1) have ne_r: "?r \<noteq> []"
    by auto
  then have "?m2 \<in> set ?r"
    by (intro Max_in) simp_all
  then have "length (remove1 ?m2 ?r) + 1 = length ?r"
    by (rule length_remove1_member)
  with len_r cw' have lw: "length (cntWidths st) + 2 = length cw"
    by simp
  have "size (add_mset c1 (add_mset c2 (mset (cntList st)))) = size (mset cl)"
    using ms by simp
  then have ll: "length (cntList st) + 2 = length cl"
    by simp
  have "cntList st \<noteq> cl" "cntWidths st \<noteq> cw"
    using ll lw by auto
  with res nw nl cw' ms ll lw show ?thesis
    by blast
qed

theorem findLargestCountours_pops_arguments_witness:
  "2 \<le> length [1, 2, 3 :: int] \<and>
   length ([[(0, 0), (4, 0), (4, 3), (0, 3)], [(1, 1), (9, 1), (9, 6), (1, 6)],
           [(2, 2), (20, 2), (20, 12), (2, 12)]] :: contour list) = length [1, 2, 3 :: int] \<and>
   (\<exists>st. findLargestCountours
            ([[(0, 0), (4, 0), (4, 3), (0, 3)], [(1, 1), (9, 1), (9, 6), (1, 6)],
             [(2, 2), (20, 2), (20, 12), (2, 12)]] :: contour list) [1, 2, 3] = Inr st \<and>
          length (cntWidths st) + 2 = length [1, 2, 3 :: int])"
proof -
  let ?cl = "[[(0, 0), (4, 0), (4, 3), (0, 3)], [(1, 1), (9, 1), (9, 6), (1, 6)],
           [(2, 2), (20, 2), (20, 12), (2, 12)]] :: contour list"
  have a: "2 \<le> length [1, 2, 3 :: int]" and b: "length ?cl = length [1, 2, 3 :: int]"
    by simp_all
  from findLargestCountours_pops_arguments [OF a b] a b show ?thesis
    by blast
qed

text \<open>
  The specification's wording, that the argument lists are unchanged, fails on three
  candidates of widths 1, 2, 3: the call leaves one candidate and one width behind.
\<close>

theorem findLargestCountours_leaves_arguments_counterexample:
  "findLargestCountours
     ([[(0, 0), (4, 0), (4, 3), (0, 3)], [(1, 1), (9, 1), (9, 6), (1, 6)],
      [(2, 2), (20, 2), (20, 12), (2, 12)]] :: contour list) [1, 2, 3] =
     Inr \<lparr>cntList = [[(0, 0), (4, 0), (4, 3), (0, 3)]], cntWidths = [1],
          newCntList = [[(2, 2), (20, 2), (20, 12), (2, 12)], [(1, 1), (9, 1), (9, 6), (1, 6)]],
          newCntWidths = [3, 2]\<rparr> \<and>
   ([[(0, 0), (4, 0), (4, 3), (0, 3)]] :: contour list) \<noteq>
     [[(0, 0), (4, 0), (4, 3), (0, 3)], [(1, 1), (9, 1), (9, 6), (1, 6)],
      [(2, 2), (20, 2), (20, 12), (2, 12)]] \<and>
   [1 :: int] \<noteq> [1, 2, 3]"
  by (simp add: findLargestCountours_def extract_largest_def py_max_def py_getitem_def py_pop_def)


section \<open>Properties of the float32 arithmetic\<close>

lemma bit_length_pos:
  assumes "0 < n"
  shows "bit_length n = Suc (bit_length (n div 2))"
  using assms by (simp add: bit_length.simps [of n])

lemma bit_length_bounds:
  assumes "0 < n"
  shows "2 ^ (bit_length n - 1) \<le> n \<and> n < 2 ^ bit_length n"
  using assms
proof (induction n rule: bit_length.induct)
  case (1 n)
  show ?case
  proof (cases "n = 1")
    case True
    have "bit_length 1 = Suc (bit_length 0)"
      using bit_length_pos [of 1] by simp
    also have "bit_length 0 = 0"
      by (simp add: bit_length.simps [of 0])
    finally show ?thesis
      using True by simp
  next
    case False
    with "1.prems" have h: "0 < n div 2"
      by simp
    have gt: "\<not> n \<le> 0"
      using "1.prems" by simp
    from "1.IH" [OF gt h] have
      lo: "2 ^ (bit_length (n div 2) - 1) \<le> n div 2" and hi: "n div 2 < 2 ^ bit_length (n div 2)"
      by simp_all
    obtain c where c: "bit_length (n div 2) = Suc c"
      using bit_length_pos [OF h] by simp
    have bl: "bit_length n = Suc (Suc c)"
      using bit_length_pos [OF "1.prems"] c by simp
    have "(2 :: int) ^ Suc c \<le> 2 * (n div 2)"
      using lo c by simp
    then have a: "(2 :: int) ^ Suc c \<le> n"
      by linarith
    have "n div 2 + 1 \<le> 2 ^ Suc c"
      using hi c by simp
    then have "n < 2 * 2 ^ Suc c"
      by linarith
    with a show ?thesis
      by (simp add: bl)
  qed
qed

lemma bit_length_unique:
  assumes "2 ^ b \<le> n" and "n < 2 ^ Suc b"
  shows "bit_length n = Suc b"
proof -
  have pos: "0 < n"
    using assms(1) zero_less_power [of "2 :: int" b] by linarith
  from bit_length_bounds [OF pos] have
    lo: "2 ^ (bit_length n - 1) \<le> n" and hi: "n < 2 ^ bit_length n"
    by simp_all
  have "(2 :: int) ^ b < 2 ^ bit_length n"
    using assms(1) hi by linarith
  then have 1: "b < bit_length n"
    by (rule power_less_imp_less_exp [rotated]) simp
  have "(2 :: int) ^ (bit_length n - 1) < 2 ^ Suc b"
    using lo assms(2) by linarith
  then have "bit_length n - 1 < Suc b"
    by (rule power_less_imp_less_exp [rotated]) simp
  with 1 show ?thesis
    by linarith
qed

lemma floor_sqrt_bounds:
  assumes "0 \<le> n"
  shows "0 \<le> floor_sqrt n \<and> floor_sqrt n * floor_sqrt n \<le> n \<and>
         n < (floor_sqrt n + 1) * (floor_sqrt n + 1)"
  using assms
proof (induction n rule: floor_sqrt.induct)
  case (1 n)
  show ?case
  proof (cases "n < 1")
    case True
    then have "floor_sqrt n = 0"
      by (simp add: floor_sqrt.simps [of n])
    with True "1.prems" show ?thesis
      by simp
  next
    case False
    let ?s = "floor_sqrt (n div 4)"
    have q0: "0 \<le> n div 4"
      using False by simp
    from "1.IH" [OF False q0] have
      s0: "0 \<le> ?s" and lo: "?s * ?s \<le> n div 4" and hi: "n div 4 < (?s + 1) * (?s + 1)"
      by simp_all
    have d1: "4 * (n div 4) \<le> n" and d2: "n < 4 * (n div 4) + 4"
      by linarith+
    have hi': "n div 4 + 1 \<le> ?s * ?s + 2 * ?s + 1"
      using hi by (simp add: algebra_simps)
    have r2: "(2 * ?s) * (2 * ?s) \<le> n"
      using lo d1 by (simp add: algebra_simps)
    have r3: "n < (2 * ?s + 2) * (2 * ?s + 2)"
      using hi' d2 by (simp add: algebra_simps)
    show ?thesis
    proof (cases "(2 * ?s + 1) * (2 * ?s + 1) \<le> n")
      case True
      then have "floor_sqrt n = 2 * ?s + 1"
        using False by (simp add: floor_sqrt.simps [of n] Let_def)
      with True r3 s0 show ?thesis
        by (simp add: algebra_simps)
    next
      case c: False
      then have "floor_sqrt n = 2 * ?s"
        using False by (simp add: floor_sqrt.simps [of n] Let_def)
      with c r2 s0 show ?thesis
        by (simp add: algebra_simps)
    qed
  qed
qed

lemma square_less_imp_less:
  fixes a b :: int
  assumes "a * a < b * b" and "0 \<le> b"
  shows "a < b"
proof (rule ccontr)
  assume "\<not> a < b"
  then have "b \<le> a"
    by simp
  with assms(2) have "b * b \<le> a * a"
    by (simp add: mult_mono)
  with assms(1) show False
    by simp
qed

lemma floor_sqrt_unique:
  assumes "0 \<le> k" and "k * k \<le> n" and "n < (k + 1) * (k + 1)"
  shows "floor_sqrt n = k"
proof -
  have n0: "0 \<le> n"
    using assms(2) zero_le_square [of k] by linarith
  from floor_sqrt_bounds [OF n0] have
    s0: "0 \<le> floor_sqrt n" and lo: "floor_sqrt n * floor_sqrt n \<le> n" and
    hi: "n < (floor_sqrt n + 1) * (floor_sqrt n + 1)"
    by simp_all
  have "floor_sqrt n * floor_sqrt n < (k + 1) * (k + 1)"
    using lo assms(3) by linarith
  then have 1: "floor_sqrt n < k + 1"
    by (rule square_less_imp_less) (use assms(1) in simp)
  have "k * k < (floor_sqrt n + 1) * (floor_sqrt n + 1)"
    using hi assms(2) by linarith
  then have "k < floor_sqrt n + 1"
    by (rule square_less_imp_less) (use s0 in simp)
  with 1 show ?thesis
    by linarith
qed

lemma four_power: "(4 :: int) ^ e = 2 ^ (2 * e)"
  by (simp add: power_mult)

lemma four_power_square: "(4 :: int) ^ e = 2 ^ e * 2 ^ e"
  by (simp add: power_mult_distrib [symmetric])

lemma sqrt_exponent_bounds:
  assumes "0 < n"
  shows "4 ^ ((bit_length n - 1) div 2) \<le> n \<and> n < 4 ^ Suc ((bit_length n - 1) div 2)"
proof -
  let ?b = "bit_length n"
  let ?e = "(?b - 1) div 2"
  from bit_length_bounds [OF assms] have lo: "2 ^ (?b - 1) \<le> n" and hi: "n < 2 ^ ?b"
    by simp_all
  have "(2 :: int) ^ (2 * ?e) \<le> 2 ^ (?b - 1)"
    by (rule power_increasing) simp_all
  with lo have a: "4 ^ ?e \<le> n"
    unfolding four_power by linarith
  have "(2 :: int) ^ ?b \<le> 2 ^ (2 * Suc ?e)"
    by (rule power_increasing) simp_all
  with hi have "n < 4 ^ Suc ?e"
    unfolding four_power by linarith
  with a show ?thesis
    by simp
qed

lemma round_sqrt_unique:
  assumes "0 \<le> M" and "M * M - M + 1 \<le> N" and "N \<le> M * M + M"
  shows "(if N \<le> floor_sqrt N * floor_sqrt N + floor_sqrt N
          then floor_sqrt N else floor_sqrt N + 1) = M"
proof -
  let ?s = "floor_sqrt N"
  have M1: "1 \<le> M"
  proof (rule ccontr)
    assume "\<not> 1 \<le> M"
    with assms(1) have "M = 0"
      by simp
    with assms(2,3) show False
      by simp
  qed
  have "0 \<le> M * M - M"
    using M1 by (simp add: mult_le_cancel_left1 algebra_simps)
  with assms(2) have N0: "0 \<le> N"
    by linarith
  from floor_sqrt_bounds [OF N0] have
    s0: "0 \<le> ?s" and lo: "?s * ?s \<le> N" and hi: "N < (?s + 1) * (?s + 1)"
    by simp_all
  have "?s * ?s < (M + 1) * (M + 1)"
    using lo assms(3) assms(1) by (simp add: algebra_simps)
  then have 1: "?s < M + 1"
    by (rule square_less_imp_less) (use assms(1) in simp)
  have "(M - 1) * (M - 1) < (?s + 1) * (?s + 1)"
    using hi assms(2) M1 by (simp add: algebra_simps)
  then have 2: "M - 1 < ?s + 1"
    by (rule square_less_imp_less) (use s0 in simp)
  from 1 2 consider "?s = M" | "?s = M - 1"
    by linarith
  then show ?thesis
  proof cases
    case 1
    with assms(3) show ?thesis
      by simp
  next
    case 2
    have "?s * ?s + ?s = (M - 1) * (M - 1) + (M - 1)"
      by (simp only: 2)
    also have "\<dots> = M * M - M"
      by (simp add: algebra_simps)
    finally have "?s * ?s + ?s = M * M - M" .
    with assms(2) 2 show ?thesis
      by simp
  qed
qed

lemma f32_sqrt_unfold:
  assumes "0 < n" and "(bit_length n - 1) div 2 = e" and "e \<le> 23"
  shows "f32_sqrt n =
           real_of_int
             (if n * 4 ^ (23 - e) \<le>
                 floor_sqrt (n * 4 ^ (23 - e)) * floor_sqrt (n * 4 ^ (23 - e)) +
                 floor_sqrt (n * 4 ^ (23 - e))
              then floor_sqrt (n * 4 ^ (23 - e))
              else floor_sqrt (n * 4 ^ (23 - e)) + 1) / 2 ^ (23 - e)"
  unfolding f32_sqrt_def Let_def assms(2) using assms(1,3) by simp

lemma f32_sqrt_eq:
  assumes "0 < n" and "(bit_length n - 1) div 2 = e" and "e \<le> 23" and "0 \<le> M"
    and "M * M - M + 1 \<le> n * 4 ^ (23 - e)" and "n * 4 ^ (23 - e) \<le> M * M + M"
  shows "f32_sqrt n = real_of_int M / 2 ^ (23 - e)"
  unfolding f32_sqrt_unfold [OF assms(1,2,3)]
  by (simp only: round_sqrt_unique [OF assms(4,5,6)])

lemma f32_sqrt_0: "f32_sqrt 0 = 0"
  by (simp add: f32_sqrt_def)

lemma f32_sqrt_small:
  assumes "0 \<le> n" and "n < 2 ^ 24"
  shows "\<lfloor>f32_sqrt n\<rfloor> = floor_sqrt n"
proof (cases "n = 0")
  case True
  have "floor_sqrt 0 = 0"
    by (rule floor_sqrt_unique) simp_all
  with True show ?thesis
    by (simp add: f32_sqrt_0)
next
  case False
  with assms(1) have pos: "0 < n"
    by simp
  define e where "e = (bit_length n - 1) div 2"
  define K where "K = 23 - e"
  define P :: int where "P = 2 ^ K"
  define t where "t = floor_sqrt n"
  define N where "N = n * 4 ^ K"
  define s where "s = floor_sqrt N"
  define m where "m = (if N \<le> s * s + s then s else s + 1)"
  from sqrt_exponent_bounds [OF pos] have "4 ^ e \<le> n"
    by (simp add: e_def)
  with assms(2) have "(4 :: int) ^ e < 4 ^ 12"
    by simp
  then have e12: "e < 12"
    by (rule power_less_imp_less_exp [rotated]) simp
  then have K12: "12 \<le> K"
    by (simp add: K_def)
  have P0: "0 < P"
    by (simp add: P_def)
  have PP: "4 ^ K = P * P"
    by (simp add: P_def four_power_square)
  have "(2 :: int) ^ 12 \<le> 2 ^ K"
    using K12 by (intro power_increasing) simp_all
  then have P12: "2 ^ 12 \<le> P"
    by (simp add: P_def)
  from floor_sqrt_bounds [OF assms(1)] have
    t0: "0 \<le> t" and tlo: "t * t \<le> n" and thi: "n < (t + 1) * (t + 1)"
    by (simp_all add: t_def)
  have "t * t < 2 ^ 12 * 2 ^ 12"
    using tlo assms(2) by simp
  then have "t < 2 ^ 12"
    by (rule square_less_imp_less) simp
  with P12 have tP: "t + 1 \<le> P"
    by linarith
  have N0: "0 \<le> N"
    using assms(1) by (simp add: N_def)
  from floor_sqrt_bounds [OF N0] have
    s0: "0 \<le> s" and slo: "s * s \<le> N" and shi: "N < (s + 1) * (s + 1)"
    by (simp_all add: s_def)
  have Nn: "N = n * (P * P)"
    by (simp add: N_def PP)
  have "(t * t) * (P * P) \<le> n * (P * P)"
    using tlo P0 by (intro mult_right_mono) simp_all
  then have Nlo: "(t * P) * (t * P) \<le> N"
    by (simp add: Nn algebra_simps)
  have "n + 1 \<le> (t + 1) * (t + 1)"
    using thi by simp
  then have "(n + 1) * (P * P) \<le> ((t + 1) * (t + 1)) * (P * P)"
    using P0 by (intro mult_right_mono) simp_all
  then have Nhi: "N + P * P \<le> ((t + 1) * P) * ((t + 1) * P)"
    by (simp add: Nn algebra_simps)
  have "(t * P) * (t * P) < (s + 1) * (s + 1)"
    using Nlo shi by linarith
  then have "t * P < s + 1"
    by (rule square_less_imp_less) (use s0 in simp)
  moreover have sm: "s \<le> m"
    by (simp add: m_def)
  ultimately have lower: "t * P \<le> m"
    by linarith
  have PP0: "0 < P * P"
    using P0 by simp
  have "s * s < ((t + 1) * P) * ((t + 1) * P)"
    using slo Nhi PP0 by linarith
  then have sA: "s < (t + 1) * P"
    by (rule square_less_imp_less) (use t0 P0 in simp)
  have upper: "m < (t + 1) * P"
  proof (rule ccontr)
    assume "\<not> m < (t + 1) * P"
    then have mA: "(t + 1) * P \<le> m"
      by simp
    with sA have ms: "m = s + 1" and big: "s * s + s < N"
      by (auto simp: m_def split: if_splits)
    from mA ms sA have sA': "s = (t + 1) * P - 1"
      by linarith
    have "s * s + s = ((t + 1) * P) * ((t + 1) * P) - (t + 1) * P"
      by (simp add: sA' algebra_simps)
    with big Nhi have "P * P < (t + 1) * P"
      by linarith
    then have "P < t + 1"
      using P0 by (simp only: mult_less_cancel_right_pos)
    with tP show False
      by simp
  qed
  have "e \<le> 23"
    using e12 by simp
  from f32_sqrt_unfold [OF pos e_def [symmetric] this]
  have fs: "f32_sqrt n = real_of_int m / 2 ^ K"
    by (simp only: m_def s_def N_def K_def)
  have Pr: "real_of_int P = 2 ^ K"
    by (simp add: P_def)
  have "real_of_int (t * P) \<le> real_of_int m"
    using lower by (simp only: of_int_le_iff)
  then have a: "real_of_int t \<le> real_of_int m / 2 ^ K"
    by (simp add: Pr pos_le_divide_eq)
  have "real_of_int m < real_of_int ((t + 1) * P)"
    using upper by (simp only: of_int_less_iff)
  then have b: "real_of_int m / 2 ^ K < real_of_int t + 1"
    by (simp add: Pr pos_divide_less_eq)
  show ?thesis
    unfolding fs t_def [symmetric] using a b by (rule floor_unique)
qed

lemma f32_round_small:
  assumes "n < 2 ^ 24"
  shows "f32_round n = n"
  using assms by (simp add: f32_round_def)

lemma f32_int_small:
  assumes "\<bar>n\<bar> < 2 ^ 24"
  shows "f32_int n = n"
  using assms by (auto simp: f32_int_def f32_round_def)

lemma f32_round_unfold:
  assumes "\<not> y < 2 ^ 24" and "bit_length y - 24 = j" and "round_half_even y (2 ^ j) = q"
  shows "f32_round y = q * 2 ^ j"
  unfolding f32_round_def Let_def assms(2) using assms(1,3) by simp

lemma f32_int_nonneg:
  assumes "0 \<le> n"
  shows "f32_int n = f32_round n"
  using assms by (simp add: f32_int_def)

lemma round_half_even_cases:
  "round_half_even n u = n div u \<or> round_half_even n u = n div u + 1"
  by (simp add: round_half_even_def Let_def)

lemma round_half_even_error:
  assumes "0 < u"
  shows "2 * \<bar>round_half_even n u * u - n\<bar> \<le> u"
proof -
  let ?q = "n div u"
  let ?r = "n mod u"
  have n: "n = ?q * u + ?r"
    by simp
  have r: "0 \<le> ?r" "?r < u"
    using assms by simp_all
  show ?thesis
  proof (cases "2 * ?r < u \<or> (2 * ?r = u \<and> even ?q)")
    case True
    then have "round_half_even n u = ?q"
      by (simp add: round_half_even_def Let_def)
    then have "round_half_even n u * u - n = - ?r"
      using n by (metis add_diff_cancel_left' minus_diff_eq diff_0 add.commute)
    with True r show ?thesis
      by auto
  next
    case False
    then have "round_half_even n u = ?q + 1"
      by (simp add: round_half_even_def Let_def)
    then have "round_half_even n u * u - n = (?q + 1) * u - (?q * u + ?r)"
      using n by simp
    also have "\<dots> = u - ?r"
      by (simp add: algebra_simps)
    finally show ?thesis
      using False r by auto
  qed
qed

lemma f32_round_large:
  assumes "2 ^ 24 \<le> x"
  shows "\<exists>q k. bit_length x = 24 + k \<and> 0 < k \<and> f32_round x = q * 2 ^ k \<and>
           2 ^ 23 \<le> q \<and> q \<le> 2 ^ 24 \<and> 2 * \<bar>f32_round x - x\<bar> \<le> 2 ^ k \<and>
           2 ^ 23 * 2 ^ k \<le> x \<and> x < 2 ^ 24 * 2 ^ k"
proof -
  have pos: "0 < x"
    using assms by simp
  from bit_length_bounds [OF pos] have
    lo: "2 ^ (bit_length x - 1) \<le> x" and hi: "x < 2 ^ bit_length x"
    by simp_all
  have "(2 :: int) ^ 24 < 2 ^ bit_length x"
    using assms hi by linarith
  then have "24 < bit_length x"
    by (rule power_less_imp_less_exp [rotated]) simp
  then obtain k where k: "bit_length x = 24 + k" "0 < k"
    by (metis less_imp_add_positive)
  define u :: int where "u = 2 ^ k"
  have u0: "0 < u"
    by (simp add: u_def)
  have "bit_length x - 1 = 23 + k"
    using k by simp
  with lo have xlo: "2 ^ 23 * u \<le> x"
    by (simp add: u_def power_add)
  from hi have xhi: "x < 2 ^ 24 * u"
    by (simp add: k u_def power_add)
  define q where "q = round_half_even x u"
  have "\<not> x < 2 ^ 24"
    using assms by simp
  moreover have "bit_length x - 24 = k"
    using k by simp
  ultimately have fr: "f32_round x = q * u"
    unfolding u_def by (rule f32_round_unfold) (simp add: q_def u_def)
  have xd: "x = (x div u) * u + x mod u" and r: "0 \<le> x mod u" "x mod u < u"
    using u0 by simp_all
  have e: "(x div u + 1) * u = (x div u) * u + u"
    by (simp add: algebra_simps)
  have "2 ^ 23 * u < (x div u + 1) * u"
    unfolding e using xlo xd r by linarith
  then have "2 ^ 23 < x div u + 1"
    using u0 by (simp only: mult_less_cancel_right_pos)
  then have d1: "2 ^ 23 \<le> x div u"
    by simp
  have "(x div u) * u < 2 ^ 24 * u"
    using xhi xd r by linarith
  then have d2: "x div u < 2 ^ 24"
    using u0 by (simp only: mult_less_cancel_right_pos)
  have q: "2 ^ 23 \<le> q" "q \<le> 2 ^ 24"
    using round_half_even_cases [of x u] d1 d2 by (auto simp: q_def)
  have err: "2 * \<bar>f32_round x - x\<bar> \<le> u"
    unfolding fr q_def by (rule round_half_even_error [OF u0])
  show ?thesis
    using k fr q err xlo xhi unfolding u_def by blast
qed

lemma f32_round_idem:
  "f32_round (f32_round x) = f32_round x"
proof (cases "x < 2 ^ 24")
  case True
  then show ?thesis
    by (simp add: f32_round_small)
next
  case False
  then have "2 ^ 24 \<le> x"
    by simp
  from f32_round_large [OF this] obtain q k where
    k: "bit_length x = 24 + k" "0 < k" and fr: "f32_round x = q * 2 ^ k" and
    q: "2 ^ 23 \<le> q" "q \<le> 2 ^ 24"
    by blast
  define u :: int where "u = 2 ^ k"
  have u0: "0 < u" and u2: "2 \<le> u"
    using k(2) self_le_power [of "2 :: int" k] by (simp_all add: u_def)
  let ?y = "q * u"
  have y24: "\<not> ?y < 2 ^ 24"
  proof -
    have "2 ^ 23 * 2 \<le> q * u"
      using q(1) u2 by (intro mult_mono) simp_all
    then show ?thesis
      by simp
  qed
  show ?thesis
  proof (cases "q = 2 ^ 24")
    case True
    have y: "?y = 2 ^ (24 + k)"
      by (simp add: True u_def power_add)
    have "bit_length ?y = Suc (24 + k)"
      unfolding y by (rule bit_length_unique) simp_all
    then have bl: "bit_length ?y - 24 = Suc k"
      by simp
    have "?y = 2 ^ 23 * (2 * u)"
      by (simp add: True)
    then have "?y div (2 * u) = 2 ^ 23" "?y mod (2 * u) = 0"
      using u0 by simp_all
    then have "round_half_even ?y (2 * u) = 2 ^ 23"
      using u0 by (simp add: round_half_even_def Let_def)
    then have rhe: "round_half_even ?y (2 ^ Suc k) = 2 ^ 23"
      by (simp add: u_def)
    have "f32_round ?y = 2 ^ 23 * 2 ^ Suc k"
      using y24 bl rhe by (rule f32_round_unfold)
    also have "\<dots> = ?y"
      by (simp add: True u_def)
    finally show ?thesis
      by (simp add: fr u_def)
  next
    case False
    with q(2) have q24: "q < 2 ^ 24"
      by simp
    have "2 ^ 23 * u \<le> ?y"
      using q(1) u0 by (intro mult_right_mono) simp_all
    then have a: "2 ^ (23 + k) \<le> ?y"
      by (simp add: u_def power_add)
    have "?y < 2 ^ 24 * u"
      using q24 u0 by (simp only: mult_less_cancel_right_pos)
    then have b: "?y < 2 ^ Suc (23 + k)"
      by (simp add: u_def power_add)
    have "bit_length ?y = Suc (23 + k)"
      using a b by (rule bit_length_unique)
    then have bl: "bit_length ?y - 24 = k"
      by simp
    have "?y div u = q" "?y mod u = 0"
      using u0 by simp_all
    then have "round_half_even ?y u = q"
      using u0 by (simp add: round_half_even_def Let_def)
    then have rhe: "round_half_even ?y (2 ^ k) = q"
      by (simp add: u_def)
    have "f32_round ?y = q * 2 ^ k"
      using y24 bl rhe by (rule f32_round_unfold)
    then show ?thesis
      by (simp add: fr u_def)
  qed
qed

lemma f32_sqrt_near_square:
  assumes "0 < d" and "0 < y" and "(bit_length y - 1) div 2 = e" and "e \<le> 23"
    and "\<bar>y - d * d\<bar> * 2 ^ (23 - e) < d"
  shows "f32_sqrt y = real_of_int d"
proof -
  define P :: int where "P = 2 ^ (23 - e)"
  define D where "D = d * P"
  define \<delta> where "\<delta> = y - d * d"
  have P0: "0 < P"
    by (simp add: P_def)
  have "\<bar>\<delta>\<bar> * P < d"
    using assms(5) by (simp add: P_def \<delta>_def)
  then have "(\<bar>\<delta>\<bar> * P) * P < d * P"
    using P0 by (simp only: mult_less_cancel_right_pos)
  moreover have "\<bar>\<delta> * (P * P)\<bar> = (\<bar>\<delta>\<bar> * P) * P"
    using P0 by (simp add: abs_mult)
  ultimately have bound: "\<bar>\<delta> * (P * P)\<bar> + 1 \<le> D"
    unfolding D_def by linarith
  have "y * 4 ^ (23 - e) = (d * d + \<delta>) * (P * P)"
    by (simp add: \<delta>_def P_def four_power_square)
  also have "\<dots> = D * D + \<delta> * (P * P)"
    by (simp add: D_def algebra_simps)
  finally have N: "y * 4 ^ (23 - e) = D * D + \<delta> * (P * P)" .
  have D0: "0 \<le> D"
    using bound by linarith
  have lo: "D * D - D + 1 \<le> y * 4 ^ (23 - e)"
    unfolding N using bound by linarith
  have hi: "y * 4 ^ (23 - e) \<le> D * D + D"
    unfolding N using bound by linarith
  from f32_sqrt_eq [OF assms(2,3,4) D0 lo hi]
  show ?thesis
    by (simp add: D_def P_def)
qed

lemma f32_sqrt_square:
  assumes "0 \<le> d" and "d < 2 ^ 24"
  shows "f32_sqrt (f32_round (d * d)) = real_of_int d"
proof (cases "d = 0")
  case True
  then show ?thesis
    by (simp add: f32_round_small f32_sqrt_0)
next
  case False
  with assms(1) have d0: "0 < d"
    by simp
  define x where "x = d * d"
  have x0: "0 < x"
    using d0 by (simp add: x_def)
  show ?thesis
  proof (cases "x < 2 ^ 24")
    case True
    define e where "e = (bit_length x - 1) div 2"
    from sqrt_exponent_bounds [OF x0] have "4 ^ e \<le> x"
      by (simp add: e_def)
    with True have "(4 :: int) ^ e < 4 ^ 12"
      by simp
    then have "e < 12"
      by (rule power_less_imp_less_exp [rotated]) simp
    then have e23: "e \<le> 23"
      by simp
    have "\<bar>x - d * d\<bar> * 2 ^ (23 - e) < d"
      using d0 by (simp add: x_def)
    from f32_sqrt_near_square [OF d0 x0 e_def [symmetric] e23 this]
    show ?thesis
      using True by (simp add: f32_round_small x_def)
  next
    case False
    then have "2 ^ 24 \<le> x"
      by simp
    from f32_round_large [OF this] obtain q k where
      k: "bit_length x = 24 + k" "0 < k" and fr: "f32_round x = q * 2 ^ k" and
      q: "2 ^ 23 \<le> q" "q \<le> 2 ^ 24" and err: "2 * \<bar>f32_round x - x\<bar> \<le> 2 ^ k" and
      xlo: "2 ^ 23 * 2 ^ k \<le> x" and xhi: "x < 2 ^ 24 * 2 ^ k"
      by blast
    define u :: int where "u = 2 ^ k"
    define y where "y = f32_round x"
    have u0: "0 < u"
      by (simp add: u_def)
    have "d \<le> 2 ^ 24 - 1"
      using assms(2) by simp
    then have "d * d \<le> (2 ^ 24 - 1) * (2 ^ 24 - 1)"
      using assms(1) by (intro mult_mono) simp_all
    then have x48: "x \<le> 2 ^ 48 - 2 ^ 25 + 1"
      by (simp add: x_def)
    have "2 ^ 23 * u < 2 ^ 23 * 2 ^ 25"
      using xlo x48 by (simp add: u_def)
    then have "u < 2 ^ 25"
      by simp
    then have "k < 25"
      unfolding u_def by (rule power_less_imp_less_exp [rotated]) simp
    then have "(2 :: int) ^ k \<le> 2 ^ 24"
      by (intro power_increasing) simp_all
    then have u24: "u \<le> 2 ^ 24"
      by (simp add: u_def)
    have erru: "2 * \<bar>y - x\<bar> \<le> u"
      using err by (simp add: y_def u_def)
    have "y - x \<le> \<bar>y - x\<bar>"
      by (rule abs_ge_self)
    then have "2 * (y - x) \<le> 2 * \<bar>y - x\<bar>"
      by (rule mult_left_mono) simp
    from this erru have "2 * (y - x) \<le> u"
      by (rule order_trans)
    from this u24 have "2 * (y - x) \<le> 2 ^ 24"
      by (rule order_trans)
    then have "y \<le> x + 2 ^ 23"
      by simp
    with x48 have y48: "y < 4 ^ 24"
      by simp
    have "2 ^ 23 * u \<le> q * u"
      using q(1) u0 by (intro mult_right_mono) simp_all
    then have ylo: "2 ^ (23 + k) \<le> y"
      by (simp add: y_def fr u_def power_add)
    then have y0: "0 < y"
      using zero_less_power [of "2 :: int" "23 + k"] by linarith
    define e where "e = (bit_length y - 1) div 2"
    from sqrt_exponent_bounds [OF y0] have elo: "4 ^ e \<le> y" and ehi: "y < 4 ^ Suc e"
      by (simp_all add: e_def)
    have "(4 :: int) ^ e < 4 ^ 24"
      using elo y48 by linarith
    then have "e < 24"
      by (rule power_less_imp_less_exp [rotated]) simp
    then have e23: "e \<le> 23"
      by simp
    have "(2 :: int) ^ (23 + k) < 2 ^ (2 * Suc e)"
      using ylo ehi unfolding four_power by linarith
    then have ke: "23 + k < 2 * Suc e"
      by (rule power_less_imp_less_exp [rotated]) simp
    define P :: int where "P = 2 ^ (23 - e)"
    have P0: "0 < P"
      by (simp add: P_def)
    have uP_eq: "u * P = 2 ^ (k + (23 - e))"
      by (simp add: u_def P_def power_add)
    have "(u * P) * (u * P) = 2 ^ ((k + (23 - e)) + (k + (23 - e)))"
      unfolding uP_eq by (simp only: power_add)
    also have "\<dots> \<le> 2 ^ (24 + k)"
      using ke e23 by (intro power_increasing) simp_all
    also have "\<dots> = 2 * (2 ^ 23 * 2 ^ k)"
      by (simp add: power_add)
    also have "\<dots> \<le> 2 * x"
      using xlo by simp
    also have "\<dots> < (2 * d) * (2 * d)"
      using x0 by (simp add: x_def)
    finally have "(u * P) * (u * P) < (2 * d) * (2 * d)" .
    then have uP: "u * P < 2 * d"
      by (rule square_less_imp_less) (use d0 in simp)
    have "(2 * \<bar>y - x\<bar>) * P \<le> u * P"
      using erru P0 by (intro mult_right_mono) simp_all
    with uP have "\<bar>y - x\<bar> * P < d"
      by (simp add: algebra_simps)
    then have "\<bar>y - d * d\<bar> * 2 ^ (23 - e) < d"
      by (simp add: x_def P_def)
    from f32_sqrt_near_square [OF d0 y0 e_def [symmetric] e23 this]
    show ?thesis
      by (simp add: y_def x_def)
  qed
qed

section \<open>Properties of convert_object\<close>

lemma collect_screens_eq:
  "collect_screens cnts scl sw = (scl @ four_vertex_polygons cnts, sw @ four_vertex_widths cnts)"
proof (induction cnts arbitrary: scl sw)
  case Nil
  then show ?case
    by (simp add: four_vertex_polygons_def four_vertex_widths_def)
next
  case (Cons c cnts)
  obtain approx W where c: "c = (approx, W)"
    by (cases c)
  show ?case
    by (simp add: c Cons.IH four_vertex_polygons_def four_vertex_widths_def)
qed

lemma four_vertex_lengths:
  "length (four_vertex_widths cnts) = length (four_vertex_polygons cnts)"
  by (simp add: four_vertex_polygons_def four_vertex_widths_def)

lemma four_vertex_polygons_length:
  assumes "c \<in> set (four_vertex_polygons cnts)"
  shows "length c = 4"
  using assms by (auto simp: four_vertex_polygons_def)

lemma order_points_total:
  assumes "pts \<noteq> []"
  shows "\<exists>r. order_points pts = Inr r"
  using order_points_first [OF assms] by blast

lemma four_point_transform_total:
  assumes "pts \<noteq> []"
  shows "\<exists>r. order_points pts = Inr r \<and>
           four_point_transform img pts =
             Inr \<lparr>src_rect = r,
                  dst_rect = ((0, 0), (maxWidth r - 1, 0),
                              (maxWidth r - 1, maxHeight r - 1), (0, maxHeight r - 1)),
                  dsize = (maxWidth r, maxHeight r),
                  raster_size = warpPerspective_size img (maxWidth r, maxHeight r)\<rparr>"
proof -
  from order_points_total [OF assms] obtain r where "order_points pts = Inr r"
    by blast
  then show ?thesis
    by (simp add: four_point_transform_def)
qed

lemma convert_object_short:
  assumes "length (four_vertex_polygons cnts) < 2"
  shows "convert_object img cnts screen_size = Inl ValueError"
proof -
  have "findLargestCountours (four_vertex_polygons cnts) (four_vertex_widths cnts) = Inl ValueError"
    using assms by (intro findLargestCountours_short) (simp_all add: four_vertex_lengths)
  then show ?thesis
    by (simp add: convert_object_def collect_screens_eq)
qed

lemma convert_object_two:
  assumes "2 \<le> length (four_vertex_polygons cnts)"
  shows "\<exists>c1 w. c1 \<in> set (four_vertex_polygons cnts) \<and> c1 = largest_candidate cnts \<and>
           four_point_transform img c1 = Inr w \<and>
           convert_object img cnts screen_size =
             (if Max (set (four_vertex_widths cnts)) \<noteq>
                 Max (set (remove1 (Max (set (four_vertex_widths cnts))) (four_vertex_widths cnts)))
              then Inr None
              else Inr (Some \<lparr>frame = w,
                     out_size = (case screen_size of None \<Rightarrow> raster_size w | Some s \<Rightarrow> s)\<rparr>))"
proof -
  let ?cl = "four_vertex_polygons cnts"
  let ?cw = "four_vertex_widths cnts"
  have len: "2 \<le> length ?cw" "length ?cl = length ?cw"
    using assms by (simp_all add: four_vertex_lengths)
  from findLargestCountours_two [OF len] obtain st c1 c2 where
    res: "findLargestCountours ?cl ?cw = Inr st" and
    nw: "newCntWidths st = [Max (set ?cw), Max (set (remove1 (Max (set ?cw)) ?cw))]" and
    nl: "newCntList st = [c1, c2]" and c1: "c1 \<in> set ?cl" and
    lc: "c1 = ?cl ! first_index ?cw (Max (set ?cw))"
    by blast
  have l4: "length c1 = 4"
    using c1 by (rule four_vertex_polygons_length)
  then have "c1 \<noteq> []"
    by auto
  from four_point_transform_total [OF this] obtain r w where
    r: "order_points c1 = Inr r" and w: "four_point_transform img c1 = Inr w"
    by blast
  have "convert_object img cnts screen_size =
             (if Max (set ?cw) \<noteq> Max (set (remove1 (Max (set ?cw)) ?cw))
              then Inr None
              else Inr (Some \<lparr>frame = w,
                     out_size = (case screen_size of None \<Rightarrow> raster_size w | Some s \<Rightarrow> s)\<rparr>))"
    by (simp add: convert_object_def collect_screens_eq res nw nl py_getitem_def
        reshape_4_2_def l4 r w)
  moreover have "c1 = largest_candidate cnts"
    using lc by (simp add: largest_candidate_def)
  ultimately show ?thesis
    using c1 w by blast
qed

text \<open>
  Claim C1. A candidate list with fewer than two four-vertex polygons should give the
  \<open>None\<close> result; the code raises instead. \<^verbatim>\<open>findLargestCountours\<close> runs before the
  length test of line 227 and calls \<^verbatim>\<open>max\<close> on an empty list, at its first extraction
  when there is no candidate and at its second when there is one, so the test that was
  written for this case is never reached.
\<close>

theorem convert_object_few_candidates_raises:
  assumes "length (four_vertex_polygons cnts) < 2"
  shows "convert_object img cnts screen_size = Inl ValueError \<and>
         convert_object img cnts screen_size \<noteq> Inr None"
  using convert_object_short [OF assms] by simp

theorem convert_object_few_candidates_raises_witness:
  "length (four_vertex_polygons []) < 2 \<and>
   convert_object (640, 480) [] None = Inl ValueError \<and>
   length (four_vertex_polygons
     [([(0, 0), (9, 0), (9, 5)], 10), ([(10, 10), (110, 10), (110, 60), (10, 60)], 101)]) < 2 \<and>
   convert_object (640, 480)
     [([(0, 0), (9, 0), (9, 5)], 10), ([(10, 10), (110, 10), (110, 60), (10, 60)], 101)] None =
     Inl ValueError"
proof -
  have a: "length (four_vertex_polygons []) < 2"
    by (simp add: four_vertex_polygons_def)
  have b: "length (four_vertex_polygons
     [([(0, 0), (9, 0), (9, 5)], 10), ([(10, 10), (110, 10), (110, 60), (10, 60)], 101)]) < 2"
    by (simp add: four_vertex_polygons_def)
  from a b
    convert_object_few_candidates_raises [OF a, where img = "(640, 480)" and screen_size = None]
    convert_object_few_candidates_raises [OF b, where img = "(640, 480)" and screen_size = None]
  show ?thesis
    by blast
qed

text \<open>
  Claim C3. With at least two four-vertex candidates \<open>convert_object\<close> never raises: it
  returns \<open>None\<close> exactly when the two largest widths (the first two of the widths in
  descending order) differ, and an image exactly when they are equal. The comparison
  is equality of Python ints, with no tolerance.
\<close>

theorem convert_object_width_agreement:
  assumes "2 \<le> length (four_vertex_polygons cnts)"
  shows "(convert_object img cnts screen_size = Inr None \<longleftrightarrow>
            descending (four_vertex_widths cnts) ! 0 \<noteq> descending (four_vertex_widths cnts) ! 1) \<and>
         ((\<exists>f. convert_object img cnts screen_size = Inr (Some f)) \<longleftrightarrow>
            descending (four_vertex_widths cnts) ! 0 = descending (four_vertex_widths cnts) ! 1)"
proof -
  let ?cw = "four_vertex_widths cnts"
  have "2 \<le> length ?cw"
    using assms by (simp add: four_vertex_lengths)
  from descending_two [OF this] have
    d: "descending ?cw ! 0 = Max (set ?cw)"
       "descending ?cw ! 1 = Max (set (remove1 (Max (set ?cw)) ?cw))"
    by simp_all
  from convert_object_two [OF assms, where img = img and screen_size = screen_size]
  obtain c1 w where
    "convert_object img cnts screen_size =
             (if Max (set ?cw) \<noteq> Max (set (remove1 (Max (set ?cw)) ?cw))
              then Inr None
              else Inr (Some \<lparr>frame = w,
                     out_size = (case screen_size of None \<Rightarrow> raster_size w | Some s \<Rightarrow> s)\<rparr>))"
    by blast
  then show ?thesis
    unfolding d by simp
qed

theorem convert_object_width_agreement_witness:
  "2 \<le> length (four_vertex_polygons
      [([(0, 0), (200, 0), (200, 90), (0, 90)], 201), ([(5, 5), (150, 5), (150, 80), (5, 80)], 146)]) \<and>
   descending (four_vertex_widths
      [([(0, 0), (200, 0), (200, 90), (0, 90)], 201), ([(5, 5), (150, 5), (150, 80), (5, 80)], 146)]) ! 0 = 201 \<and>
   descending (four_vertex_widths
      [([(0, 0), (200, 0), (200, 90), (0, 90)], 201), ([(5, 5), (150, 5), (150, 80), (5, 80)], 146)]) ! 1 = 146 \<and>
   convert_object (640, 480)
      [([(0, 0), (200, 0), (200, 90), (0, 90)], 201), ([(5, 5), (150, 5), (150, 80), (5, 80)], 146)] None =
     Inr None \<and>
   2 \<le> length (four_vertex_polygons
      [([(0, 0), (200, 0), (200, 90), (0, 90)], 201), ([(1, 1), (199, 1), (199, 89), (1, 89)], 201)]) \<and>
   (\<exists>f. convert_object (640, 480)
      [([(0, 0), (200, 0), (200, 90), (0, 90)], 201), ([(1, 1), (199, 1), (199, 89), (1, 89)], 201)] None =
     Inr (Some f))"
proof -
  let ?A = "[([(0, 0), (200, 0), (200, 90), (0, 90)], 201), ([(5, 5), (150, 5), (150, 80), (5, 80)], 146)]
    :: (contour \<times> int) list"
  let ?B = "[([(0, 0), (200, 0), (200, 90), (0, 90)], 201), ([(1, 1), (199, 1), (199, 89), (1, 89)], 201)]
    :: (contour \<times> int) list"
  have a: "2 \<le> length (four_vertex_polygons ?A)"
    by (simp add: four_vertex_polygons_def)
  have b: "2 \<le> length (four_vertex_polygons ?B)"
    by (simp add: four_vertex_polygons_def)
  have da: "descending (four_vertex_widths ?A) ! 0 = 201" "descending (four_vertex_widths ?A) ! 1 = 146"
    by (simp_all add: descending_def four_vertex_widths_def)
  have db: "descending (four_vertex_widths ?B) ! 0 = descending (four_vertex_widths ?B) ! 1"
    by (simp add: descending_def four_vertex_widths_def)
  have ra: "convert_object (640, 480) ?A None = Inr None"
    using convert_object_width_agreement [OF a, where img = "(640, 480)" and screen_size = None] da
    by simp
  have rb: "\<exists>f. convert_object (640, 480) ?B None = Inr (Some f)"
    using convert_object_width_agreement [OF b, where img = "(640, 480)" and screen_size = None] db
    by blast
  from a b da ra rb show ?thesis
    by blast
qed

text \<open>
  Claim C7. On candidates of widths 50, 200, 200, 80 the two extractions take the two
  candidates of width 200, the earlier one first, and leave the other two behind; the
  widths agree, so \<open>convert_object\<close> returns an image, and that image is the warp that
  \<open>four_point_transform\<close> computes from the vertices of the first candidate of width 200.
\<close>

theorem scenario_two_equal_largest:
  assumes "length q0 = 4" and "length q1 = 4" and "length q2 = 4" and "length q3 = 4"
  shows "findLargestCountours [q0, q1, q2, q3] [50, 200, 200, 80] =
           Inr \<lparr>cntList = [q0, q3], cntWidths = [50, 80],
                newCntList = [q1, q2], newCntWidths = [200, 200]\<rparr> \<and>
         (\<exists>w. four_point_transform img q1 = Inr w \<and>
            convert_object img [(q0, 50), (q1, 200), (q2, 200), (q3, 80)] screen_size =
              Inr (Some \<lparr>frame = w,
                     out_size = (case screen_size of None \<Rightarrow> raster_size w | Some s \<Rightarrow> s)\<rparr>))"
proof -
  have sel: "findLargestCountours [q0, q1, q2, q3] [50, 200, 200, 80] =
           Inr \<lparr>cntList = [q0, q3], cntWidths = [50, 80],
                newCntList = [q1, q2], newCntWidths = [200, 200]\<rparr>"
    by (simp add: findLargestCountours_def extract_largest_def py_max_def py_getitem_def
        py_pop_def)
  have "q1 \<noteq> []"
    using assms(2) by auto
  from four_point_transform_total [OF this] obtain r w where
    r: "order_points q1 = Inr r" and w: "four_point_transform img q1 = Inr w"
    by blast
  have "convert_object img [(q0, 50), (q1, 200), (q2, 200), (q3, 80)] screen_size =
              Inr (Some \<lparr>frame = w,
                     out_size = (case screen_size of None \<Rightarrow> raster_size w | Some s \<Rightarrow> s)\<rparr>)"
    by (simp add: convert_object_def assms sel py_getitem_def reshape_4_2_def r w)
  with sel w show ?thesis
    by blast
qed

theorem scenario_two_equal_largest_witness:
  "length ([(0, 0), (50, 0), (50, 20), (0, 20)] :: contour) = 4 \<and>
   length ([(10, 10), (210, 10), (210, 110), (10, 110)] :: contour) = 4 \<and>
   length ([(11, 11), (209, 11), (209, 109), (11, 109)] :: contour) = 4 \<and>
   length ([(300, 0), (380, 0), (380, 40), (300, 40)] :: contour) = 4 \<and>
   (\<exists>w. four_point_transform (640, 480) [(10, 10), (210, 10), (210, 110), (10, 110)] = Inr w \<and>
      convert_object (640, 480)
        [([(0, 0), (50, 0), (50, 20), (0, 20)], 50),
         ([(10, 10), (210, 10), (210, 110), (10, 110)], 200),
         ([(11, 11), (209, 11), (209, 109), (11, 109)], 200),
         ([(300, 0), (380, 0), (380, 40), (300, 40)], 80)] None =
        Inr (Some \<lparr>frame = w, out_size = raster_size w\<rparr>))"
proof -
  have l: "length ([(0, 0), (50, 0), (50, 20), (0, 20)] :: contour) = 4"
    "length ([(10, 10), (210, 10), (210, 110), (10, 110)] :: contour) = 4"
    "length ([(11, 11), (209, 11), (209, 109), (11, 109)] :: contour) = 4"
    "length ([(300, 0), (380, 0), (380, 40), (300, 40)] :: contour) = 4"
    by simp_all
  from scenario_two_equal_largest [OF l, where img = "(640, 480)" and screen_size = None]
  show ?thesis
    by simp
qed

section \<open>Properties of the destination size\<close>

lemma floor_real_sqrt:
  assumes "0 \<le> n"
  shows "\<lfloor>sqrt (real_of_int n)\<rfloor> = floor_sqrt n"
proof (rule floor_unique)
  let ?r = "floor_sqrt n"
  from floor_sqrt_bounds [OF assms] have
    r0: "0 \<le> ?r" and lo: "?r * ?r \<le> n" and hi: "n < (?r + 1) * (?r + 1)"
    by simp_all
  have "real_of_int (?r * ?r) \<le> real_of_int n"
    using lo by (simp only: of_int_le_iff)
  then have "(real_of_int ?r)\<^sup>2 \<le> real_of_int n"
    by (simp add: power2_eq_square)
  then show "real_of_int ?r \<le> sqrt (real_of_int n)"
    by (rule real_le_rsqrt)
  have "real_of_int n < real_of_int ((?r + 1) * (?r + 1))"
    using hi by (simp only: of_int_less_iff)
  then have "real_of_int n < (real_of_int ?r + 1)\<^sup>2"
    by (simp add: power2_eq_square)
  moreover have "0 \<le> real_of_int ?r + 1"
    using r0 by simp
  ultimately show "sqrt (real_of_int n) < real_of_int ?r + 1"
    by (intro real_less_lsqrt)
qed

lemma floor_sqrt_nonneg: "0 \<le> floor_sqrt n"
proof (cases "0 \<le> n")
  case True
  then show ?thesis
    using floor_sqrt_bounds [of n] by simp
next
  case False
  then show ?thesis
    by (simp add: floor_sqrt.simps [of n])
qed

lemma f32_sqrt_nonneg: "0 \<le> f32_sqrt n"
proof -
  have s: "0 \<le> floor_sqrt k" "0 \<le> floor_sqrt k + 1" for k
    using floor_sqrt_nonneg [of k] by simp_all
  show ?thesis
    unfolding f32_sqrt_def Let_def using s by (simp add: zero_le_mult_iff)
qed

lemma edge_length_nonneg: "0 \<le> edge_length a b"
  by (simp add: edge_length_def Let_def f32_sqrt_nonneg)

lemma floor_max:
  fixes a b :: real
  shows "\<lfloor>max a b\<rfloor> = max \<lfloor>a\<rfloor> \<lfloor>b\<rfloor>"
proof (cases "a \<le> b")
  case True
  then have "\<lfloor>a\<rfloor> \<le> \<lfloor>b\<rfloor>"
    by (rule floor_mono)
  with True show ?thesis
    by (simp add: max_def)
next
  case False
  then have "\<lfloor>b\<rfloor> \<le> \<lfloor>a\<rfloor>"
    by (intro floor_mono) simp
  with False show ?thesis
    by (auto simp: max_def)
qed

lemma max_py_int:
  assumes "0 \<le> a" and "0 \<le> b"
  shows "max (py_int a) (py_int b) = \<lfloor>max a b\<rfloor>"
  using assms by (simp add: py_int_def floor_max)

lemma maxWidth_floor:
  "maxWidth (tl', tr', br', bl') = \<lfloor>max (edge_length tr' tl') (edge_length br' bl')\<rfloor>"
proof -
  have "max (py_int (edge_length br' bl')) (py_int (edge_length tr' tl')) =
        \<lfloor>max (edge_length br' bl') (edge_length tr' tl')\<rfloor>"
    by (rule max_py_int) (rule edge_length_nonneg)+
  then show ?thesis
    by (simp add: maxWidth_def max.commute)
qed

lemma maxHeight_floor:
  "maxHeight (tl', tr', br', bl') = \<lfloor>max (edge_length tl' bl') (edge_length tr' br')\<rfloor>"
proof -
  have "max (py_int (edge_length tr' br')) (py_int (edge_length tl' bl')) =
        \<lfloor>max (edge_length tr' br') (edge_length tl' bl')\<rfloor>"
    by (rule max_py_int) (rule edge_length_nonneg)+
  then show ?thesis
    by (simp add: maxHeight_def max.commute)
qed

lemma abs_le_square:
  fixes d :: int
  shows "\<bar>d\<bar> \<le> d * d"
proof (cases "d = 0")
  case True
  then show ?thesis
    by simp
next
  case False
  then have "1 \<le> \<bar>d\<bar>"
    by simp
  then have "\<bar>d\<bar> * 1 \<le> \<bar>d\<bar> * \<bar>d\<bar>"
    by (intro mult_left_mono) simp_all
  then show ?thesis
    by simp
qed

lemma edge_length_short:
  assumes "short_edge a b"
  shows "edge_length a b =
           f32_sqrt ((fst a - fst b) * (fst a - fst b) + (snd a - snd b) * (snd a - snd b))"
proof -
  define dx where "dx = fst a - fst b"
  define dy where "dy = snd a - snd b"
  from assms have c: "f32_int (fst a) = fst a" "f32_int (fst b) = fst b"
    "f32_int (snd a) = snd a" "f32_int (snd b) = snd b"
    by (simp_all add: short_edge_def f32_int_small)
  from assms have n: "dx * dx + dy * dy < 2 ^ 24"
    by (simp add: short_edge_def dx_def dy_def)
  have x0: "0 \<le> dx * dx" and y0: "0 \<le> dy * dy"
    by simp_all
  from n y0 have x: "dx * dx < 2 ^ 24"
    by linarith
  from n x0 have y: "dy * dy < 2 ^ 24"
    by linarith
  have "\<bar>dx\<bar> < 2 ^ 24"
    using abs_le_square [of dx] x by linarith
  then have dx: "f32_int dx = dx"
    by (rule f32_int_small)
  have "\<bar>dy\<bar> < 2 ^ 24"
    using abs_le_square [of dy] y by linarith
  then have dy: "f32_int dy = dy"
    by (rule f32_int_small)
  have "\<bar>dx * dx\<bar> < 2 ^ 24"
    using x x0 by linarith
  then have xx: "f32_int (dx * dx) = dx * dx"
    by (rule f32_int_small)
  have "\<bar>dy * dy\<bar> < 2 ^ 24"
    using y y0 by linarith
  then have yy: "f32_int (dy * dy) = dy * dy"
    by (rule f32_int_small)
  have "\<bar>dx * dx + dy * dy\<bar> < 2 ^ 24"
    using n x0 y0 by linarith
  then have s: "f32_int (dx * dx + dy * dy) = dx * dx + dy * dy"
    by (rule f32_int_small)
  have "edge_length a b = f32_sqrt (dx * dx + dy * dy)"
    unfolding edge_length_def Let_def c dx_def [symmetric] dy_def [symmetric] dx dy xx yy s
    by (rule refl)
  then show ?thesis
    by (simp only: dx_def dy_def)
qed

lemma py_int_edge_length_short:
  assumes "short_edge a b"
  shows "py_int (edge_length a b) =
           floor_sqrt ((fst a - fst b) * (fst a - fst b) + (snd a - snd b) * (snd a - snd b))"
proof -
  let ?n = "(fst a - fst b) * (fst a - fst b) + (snd a - snd b) * (snd a - snd b)"
  have n0: "0 \<le> ?n"
    by simp
  from assms have n: "?n < 2 ^ 24"
    by (simp add: short_edge_def)
  have "py_int (edge_length a b) = \<lfloor>edge_length a b\<rfloor>"
    using edge_length_nonneg [of a b] by (simp add: py_int_def)
  also have "\<dots> = \<lfloor>f32_sqrt ?n\<rfloor>"
    by (simp only: edge_length_short [OF assms])
  also have "\<dots> = floor_sqrt ?n"
    using n0 n by (rule f32_sqrt_small)
  finally show ?thesis .
qed

lemma floor_euclid:
  "\<lfloor>euclid (real_point a) (real_point b)\<rfloor> =
     floor_sqrt ((fst a - fst b) * (fst a - fst b) + (snd a - snd b) * (snd a - snd b))"
proof -
  let ?n = "(fst a - fst b) * (fst a - fst b) + (snd a - snd b) * (snd a - snd b)"
  have "euclid (real_point a) (real_point b) = sqrt (real_of_int ?n)"
    by (simp add: euclid_def real_point_def power2_eq_square)
  moreover have "\<lfloor>sqrt (real_of_int ?n)\<rfloor> = floor_sqrt ?n"
    by (rule floor_real_sqrt) simp
  ultimately show ?thesis
    by simp
qed

lemma spec_destWidth_code:
  "spec_destWidth (tl', tr', br', bl') =
     max (floor_sqrt ((fst tr' - fst tl') * (fst tr' - fst tl') +
                      (snd tr' - snd tl') * (snd tr' - snd tl')))
         (floor_sqrt ((fst br' - fst bl') * (fst br' - fst bl') +
                      (snd br' - snd bl') * (snd br' - snd bl')))"
  by (simp only: spec_destWidth_def prod.case floor_max floor_euclid)

lemma spec_destHeight_code:
  "spec_destHeight (tl', tr', br', bl') =
     max (floor_sqrt ((fst tl' - fst bl') * (fst tl' - fst bl') +
                      (snd tl' - snd bl') * (snd tl' - snd bl')))
         (floor_sqrt ((fst tr' - fst br') * (fst tr' - fst br') +
                      (snd tr' - snd br') * (snd tr' - snd br')))"
  by (simp only: spec_destHeight_def prod.case floor_max floor_euclid)

lemma maxWidth_short:
  assumes "short_edge br' bl'" and "short_edge tr' tl'"
  shows "maxWidth (tl', tr', br', bl') =
     max (floor_sqrt ((fst tr' - fst tl') * (fst tr' - fst tl') +
                      (snd tr' - snd tl') * (snd tr' - snd tl')))
         (floor_sqrt ((fst br' - fst bl') * (fst br' - fst bl') +
                      (snd br' - snd bl') * (snd br' - snd bl')))"
  unfolding maxWidth_def prod.case Let_def
    py_int_edge_length_short [OF assms(1)] py_int_edge_length_short [OF assms(2)]
  by (rule max.commute)

lemma maxHeight_short:
  assumes "short_edge tr' br'" and "short_edge tl' bl'"
  shows "maxHeight (tl', tr', br', bl') =
     max (floor_sqrt ((fst tl' - fst bl') * (fst tl' - fst bl') +
                      (snd tl' - snd bl') * (snd tl' - snd bl')))
         (floor_sqrt ((fst tr' - fst br') * (fst tr' - fst br') +
                      (snd tr' - snd br') * (snd tr' - snd br')))"
  unfolding maxHeight_def prod.case Let_def
    py_int_edge_length_short [OF assms(1)] py_int_edge_length_short [OF assms(2)]
  by (rule max.commute)

lemma short_edges_spec:
  assumes "short_edges r"
  shows "maxWidth r = spec_destWidth r \<and> maxHeight r = spec_destHeight r"
proof -
  obtain tl' tr' br' bl' where r: "r = (tl', tr', br', bl')"
    by (cases r)
  from assms have s: "short_edge br' bl'" "short_edge tr' tl'" "short_edge tr' br'"
    "short_edge tl' bl'"
    by (simp_all add: r short_edges_def)
  show ?thesis
    unfolding r maxWidth_short [OF s(1,2)] maxHeight_short [OF s(3,4)]
      spec_destWidth_code spec_destHeight_code
    by simp
qed

lemma first_min_map:
  assumes "first_min (map f pts) i"
  shows "i < length pts \<and> (\<forall>q \<in> set pts. f (pts ! i) \<le> f q)"
proof -
  from assms have i: "i < length pts" and le: "\<forall>j<length pts. f (pts ! i) \<le> f (pts ! j)"
    by (auto simp: first_min_iff)
  have "f (pts ! i) \<le> f q" if "q \<in> set pts" for q
  proof -
    from that obtain j where "j < length pts" "pts ! j = q"
      by (auto simp: in_set_conv_nth)
    with le show ?thesis
      by auto
  qed
  with i show ?thesis
    by blast
qed

lemma first_max_map:
  assumes "first_max (map f pts) i"
  shows "i < length pts \<and> (\<forall>q \<in> set pts. f q \<le> f (pts ! i))"
proof -
  from assms have i: "i < length pts" and le: "\<forall>j<length pts. f (pts ! j) \<le> f (pts ! i)"
    by (auto simp: first_max_iff)
  have "f q \<le> f (pts ! i)" if "q \<in> set pts" for q
  proof -
    from that obtain j where "j < length pts" "pts ! j = q"
      by (auto simp: in_set_conv_nth)
    with le show ?thesis
      by auto
  qed
  with i show ?thesis
    by blast
qed

lemma order_points_extremes:
  assumes "pts \<noteq> []"
  shows "\<exists>a b c d. order_points pts = Inr (a, b, c, d) \<and>
           a \<in> set pts \<and> b \<in> set pts \<and> c \<in> set pts \<and> d \<in> set pts \<and>
           (\<forall>q \<in> set pts. fst a + snd a \<le> fst q + snd q) \<and>
           (\<forall>q \<in> set pts. snd b - fst b \<le> snd q - fst q) \<and>
           (\<forall>q \<in> set pts. fst q + snd q \<le> fst c + snd c) \<and>
           (\<forall>q \<in> set pts. snd q - fst q \<le> snd d - fst d)"
proof -
  from order_points_first [OF assms] obtain i0 i1 i2 i3 where
    r: "order_points pts = Inr (pts ! i0, pts ! i1, pts ! i2, pts ! i3)" and
    m0: "first_min (sum_axis1 pts) i0" and m1: "first_min (diff_axis1 pts) i1" and
    m2: "first_max (sum_axis1 pts) i2" and m3: "first_max (diff_axis1 pts) i3"
    by blast
  note e0 = first_min_map [OF m0 [unfolded sum_axis1_def]]
    and e1 = first_min_map [OF m1 [unfolded diff_axis1_def]]
    and e2 = first_max_map [OF m2 [unfolded sum_axis1_def]]
    and e3 = first_max_map [OF m3 [unfolded diff_axis1_def]]
  have "pts ! i0 \<in> set pts" "pts ! i1 \<in> set pts" "pts ! i2 \<in> set pts" "pts ! i3 \<in> set pts"
    using e0 e1 e2 e3 by simp_all
  with r e0 e1 e2 e3 show ?thesis
    by blast
qed

lemma floor_sqrt_0: "floor_sqrt 0 = 0"
  by (rule floor_sqrt_unique) simp_all

lemma floor_sqrt_10000: "floor_sqrt 10000 = 100"
  by (rule floor_sqrt_unique) simp_all

lemma floor_sqrt_2500: "floor_sqrt 2500 = 50"
  by (rule floor_sqrt_unique) simp_all

lemma floor_sqrt_925: "floor_sqrt 925 = 30"
  by (rule floor_sqrt_unique) simp_all

lemma floor_sqrt_25010000: "floor_sqrt 25010000 = 5000"
  by (rule floor_sqrt_unique) simp_all

lemma warpPerspective_size_positive:
  assumes "0 < a" and "0 < b"
  shows "warpPerspective_size src (a, b) = (a, b)"
  using assms by (simp add: warpPerspective_size_def)

lemma warpPerspective_size_empty:
  assumes "a = 0 \<or> b = 0"
  shows "warpPerspective_size src (a, b) = src"
  using assms by (auto simp: warpPerspective_size_def)

subsection \<open>An axis-aligned rectangle\<close>

lemma rectangle_order:
  assumes "set pts = {(10, 10), (110, 10), (110, 60), (10, 60)}"
  shows "order_points pts = Inr ((10, 10), (110, 10), (110, 60), (10, 60))"
proof -
  from assms have "pts \<noteq> []"
    by auto
  from order_points_extremes [OF this] obtain a b c d where
    r: "order_points pts = Inr (a, b, c, d)" and
    mem: "a \<in> set pts" "b \<in> set pts" "c \<in> set pts" "d \<in> set pts" and
    a: "\<forall>q \<in> set pts. fst a + snd a \<le> fst q + snd q" and
    b: "\<forall>q \<in> set pts. snd b - fst b \<le> snd q - fst q" and
    c: "\<forall>q \<in> set pts. fst q + snd q \<le> fst c + snd c" and
    d: "\<forall>q \<in> set pts. snd q - fst q \<le> snd d - fst d"
    by blast
  have "a = (10, 10)"
    using mem(1) a unfolding assms by auto
  moreover have "b = (110, 10)"
    using mem(2) b unfolding assms by auto
  moreover have "c = (110, 60)"
    using mem(3) c unfolding assms by auto
  moreover have "d = (10, 60)"
    using mem(4) d unfolding assms by auto
  ultimately show ?thesis
    using r by simp
qed

lemma rectangle_size:
  "maxWidth ((10, 10), (110, 10), (110, 60), (10, 60)) = 100"
  "maxHeight ((10, 10), (110, 10), (110, 60), (10, 60)) = 50"
proof -
  have s: "short_edge (110, 60) (10, 60)" "short_edge (110, 10) (10, 10)"
    "short_edge (110, 10) (110, 60)" "short_edge (10, 10) (10, 60)"
    by (simp_all add: short_edge_def)
  show "maxWidth ((10, 10), (110, 10), (110, 60), (10, 60)) = 100"
    unfolding maxWidth_short [OF s(1,2)] by (simp add: floor_sqrt_10000)
  show "maxHeight ((10, 10), (110, 10), (110, 60), (10, 60)) = 50"
    unfolding maxHeight_short [OF s(3,4)] by (simp add: floor_sqrt_2500)
qed

lemma rectangle_transform:
  assumes "set pts = {(10, 10), (110, 10), (110, 60), (10, 60)}"
  shows "four_point_transform img pts =
           Inr \<lparr>src_rect = ((10, 10), (110, 10), (110, 60), (10, 60)),
                dst_rect = ((0, 0), (99, 0), (99, 49), (0, 49)),
                dsize = (100, 50), raster_size = (100, 50)\<rparr>"
  by (simp add: four_point_transform_def rectangle_order [OF assms] rectangle_size
      warpPerspective_size_positive)

subsection \<open>The corners of a frame\<close>

lemma f32_round_nonneg:
  assumes "0 \<le> x"
  shows "0 \<le> f32_round x"
proof (cases "x < 2 ^ 24")
  case True
  with assms show ?thesis
    by (simp add: f32_round_small)
next
  case False
  then have "2 ^ 24 \<le> x"
    by simp
  from f32_round_large [OF this] obtain q k where
    fr: "f32_round x = q * 2 ^ k" and q: "2 ^ 23 \<le> q"
    by blast
  from q have "0 \<le> q"
    by simp
  then have "0 \<le> q * 2 ^ k"
    by (intro mult_nonneg_nonneg) simp_all
  with fr show ?thesis
    by simp
qed

lemma f32_axis_length:
  assumes "\<bar>d\<bar> < 2 ^ 24"
  shows "f32_sqrt (f32_int (f32_int (d * d))) = real_of_int \<bar>d\<bar>"
proof -
  have dd: "d * d = \<bar>d\<bar> * \<bar>d\<bar>"
    by simp
  have "0 \<le> d * d"
    by simp
  then have a: "f32_int (d * d) = f32_round (d * d)"
    by (rule f32_int_nonneg)
  have "0 \<le> f32_round (d * d)"
    by (rule f32_round_nonneg) simp
  then have "f32_int (f32_round (d * d)) = f32_round (f32_round (d * d))"
    by (rule f32_int_nonneg)
  then have "f32_int (f32_int (d * d)) = f32_round (d * d)"
    by (simp only: a f32_round_idem)
  then have "f32_sqrt (f32_int (f32_int (d * d))) = f32_sqrt (f32_round (\<bar>d\<bar> * \<bar>d\<bar>))"
    by (simp only: dd)
  also have "\<dots> = real_of_int \<bar>d\<bar>"
    using assms by (intro f32_sqrt_square) simp_all
  finally show ?thesis .
qed

lemma f32_int_0: "f32_int 0 = 0"
  by (simp add: f32_int_small)

lemma edge_length_horizontal:
  assumes "\<bar>fst a\<bar> < 2 ^ 24" and "\<bar>fst b\<bar> < 2 ^ 24" and "\<bar>snd a\<bar> < 2 ^ 24"
    and "snd b = snd a" and "\<bar>fst a - fst b\<bar> < 2 ^ 24"
  shows "edge_length a b = real_of_int \<bar>fst a - fst b\<bar>"
proof -
  have c: "f32_int (fst a) = fst a" "f32_int (fst b) = fst b" "f32_int (snd a) = snd a"
    using assms(1,2,3) by (simp_all add: f32_int_small)
  have dx: "f32_int (fst a - fst b) = fst a - fst b"
    using assms(5) by (rule f32_int_small)
  have "edge_length a b =
          f32_sqrt (f32_int (f32_int ((fst a - fst b) * (fst a - fst b))))"
    by (simp add: edge_length_def Let_def assms(4) c dx f32_int_0)
  also have "\<dots> = real_of_int \<bar>fst a - fst b\<bar>"
    using assms(5) by (rule f32_axis_length)
  finally show ?thesis .
qed

lemma edge_length_vertical:
  assumes "\<bar>snd a\<bar> < 2 ^ 24" and "\<bar>snd b\<bar> < 2 ^ 24" and "\<bar>fst a\<bar> < 2 ^ 24"
    and "fst b = fst a" and "\<bar>snd a - snd b\<bar> < 2 ^ 24"
  shows "edge_length a b = real_of_int \<bar>snd a - snd b\<bar>"
proof -
  have c: "f32_int (snd a) = snd a" "f32_int (snd b) = snd b" "f32_int (fst a) = fst a"
    using assms(1,2,3) by (simp_all add: f32_int_small)
  have dy: "f32_int (snd a - snd b) = snd a - snd b"
    using assms(5) by (rule f32_int_small)
  have "edge_length a b =
          f32_sqrt (f32_int (f32_int ((snd a - snd b) * (snd a - snd b))))"
    by (simp add: edge_length_def Let_def assms(4) c dy f32_int_0)
  also have "\<dots> = real_of_int \<bar>snd a - snd b\<bar>"
    using assms(5) by (rule f32_axis_length)
  finally show ?thesis .
qed

lemma frame_order:
  assumes "1 \<le> W" and "1 \<le> H"
    and "set pts = {(0, 0), (W - 1, 0), (W - 1, H - 1), (0, H - 1)}"
  shows "order_points pts = Inr ((0, 0), (W - 1, 0), (W - 1, H - 1), (0, H - 1))"
proof -
  from assms(3) have "pts \<noteq> []"
    by auto
  from order_points_extremes [OF this] obtain a b c d where
    r: "order_points pts = Inr (a, b, c, d)" and
    mem: "a \<in> set pts" "b \<in> set pts" "c \<in> set pts" "d \<in> set pts" and
    a: "\<forall>q \<in> set pts. fst a + snd a \<le> fst q + snd q" and
    b: "\<forall>q \<in> set pts. snd b - fst b \<le> snd q - fst q" and
    c: "\<forall>q \<in> set pts. fst q + snd q \<le> fst c + snd c" and
    d: "\<forall>q \<in> set pts. snd q - fst q \<le> snd d - fst d"
    by blast
  have "a = (0, 0)"
    using mem(1) a assms(1,2) unfolding assms(3) by auto
  moreover have "b = (W - 1, 0)"
    using mem(2) b assms(1,2) unfolding assms(3) by auto
  moreover have "c = (W - 1, H - 1)"
    using mem(3) c assms(1,2) unfolding assms(3) by auto
  moreover have "d = (0, H - 1)"
    using mem(4) d assms(1,2) unfolding assms(3) by auto
  ultimately show ?thesis
    using r by simp
qed

lemma frame_size:
  assumes "1 \<le> W" and "W \<le> 2 ^ 24" and "1 \<le> H" and "H \<le> 2 ^ 24"
  shows "maxWidth ((0, 0), (W - 1, 0), (W - 1, H - 1), (0, H - 1)) = W - 1"
    and "maxHeight ((0, 0), (W - 1, 0), (W - 1, H - 1), (0, H - 1)) = H - 1"
proof -
  have w: "\<bar>W - 1\<bar> < 2 ^ 24" "\<bar>W - 1\<bar> = W - 1" and h: "\<bar>H - 1\<bar> < 2 ^ 24" "\<bar>H - 1\<bar> = H - 1"
    using assms by simp_all
  have h': "\<bar>1 - H\<bar> < 2 ^ 24" "\<bar>1 - H\<bar> = H - 1"
    using assms by simp_all
  have wA: "edge_length (W - 1, H - 1) (0, H - 1) = real_of_int (W - 1)"
    using edge_length_horizontal [of "(W - 1, H - 1)" "(0, H - 1)"] w h by simp
  have wB: "edge_length (W - 1, 0) (0, 0) = real_of_int (W - 1)"
    using edge_length_horizontal [of "(W - 1, 0)" "(0, 0)"] w by simp
  have hA: "edge_length (W - 1, 0) (W - 1, H - 1) = real_of_int (H - 1)"
    using edge_length_vertical [of "(W - 1, 0)" "(W - 1, H - 1)"] w h h' by simp
  have hB: "edge_length (0, 0) (0, H - 1) = real_of_int (H - 1)"
    using edge_length_vertical [of "(0, 0)" "(0, H - 1)"] h h' by simp
  have p: "py_int (real_of_int (W - 1)) = W - 1" "py_int (real_of_int (H - 1)) = H - 1"
    using assms(1,3) by (simp_all add: py_int_def)
  show "maxWidth ((0, 0), (W - 1, 0), (W - 1, H - 1), (0, H - 1)) = W - 1"
    unfolding maxWidth_def prod.case Let_def wA wB p by simp
  show "maxHeight ((0, 0), (W - 1, 0), (W - 1, H - 1), (0, H - 1)) = H - 1"
    unfolding maxHeight_def prod.case Let_def hA hB p by simp
qed

lemma frame_transform:
  assumes "1 \<le> W" and "W \<le> 2 ^ 24" and "1 \<le> H" and "H \<le> 2 ^ 24"
    and "set pts = {(0, 0), (W - 1, 0), (W - 1, H - 1), (0, H - 1)}"
  shows "four_point_transform img pts =
           Inr \<lparr>src_rect = ((0, 0), (W - 1, 0), (W - 1, H - 1), (0, H - 1)),
                dst_rect = ((0, 0), (W - 2, 0), (W - 2, H - 2), (0, H - 2)),
                dsize = (W - 1, H - 1),
                raster_size = warpPerspective_size img (W - 1, H - 1)\<rparr>"
  by (simp add: four_point_transform_def frame_order [OF assms(1,3,5)]
      frame_size [OF assms(1,2,3,4)])

subsection \<open>A slanted quadrilateral five thousand pixels wide\<close>

lemma slanted_order:
  "order_points [(0, 0), (5000, 100), (5000, 200), (0, 100)] =
     Inr ((0, 0), (5000, 100), (5000, 200), (0, 100))"
  by (simp add: order_points_def argmin_def argmax_def sum_axis1_def diff_axis1_def)

lemma bit_length_25000000: "bit_length 25000000 = 25"
  using bit_length_unique [of 24 25000000] by simp

lemma bit_length_25010000: "bit_length 25010000 = 25"
  using bit_length_unique [of 24 25010000] by simp

lemma f32_int_25000000: "f32_int 25000000 = 25000000"
proof -
  have "f32_round 25000000 = 12500000 * 2 ^ 1"
    by (rule f32_round_unfold) (simp_all add: bit_length_25000000 round_half_even_def)
  then show ?thesis
    by (simp add: f32_int_def)
qed

lemma f32_int_25010000: "f32_int 25010000 = 25010000"
proof -
  have "f32_round 25010000 = 12505000 * 2 ^ 1"
    by (rule f32_round_unfold) (simp_all add: bit_length_25010000 round_half_even_def)
  then show ?thesis
    by (simp add: f32_int_def)
qed

lemma f32_sqrt_25010000: "f32_sqrt 25010000 = 5001"
proof -
  have "f32_sqrt 25010000 = real_of_int 10242048 / 2 ^ (23 - 12)"
    by (rule f32_sqrt_eq) (simp_all add: bit_length_25010000)
  then show ?thesis
    by simp
qed

lemma slanted_edge_length:
  "edge_length (5000, 200) (0, 100) = 5001"
  "edge_length (5000, 100) (0, 0) = 5001"
  by (simp_all add: edge_length_def Let_def f32_int_small f32_int_25000000 f32_int_25010000
      f32_sqrt_25010000)

lemma slanted_size:
  "maxWidth ((0, 0), (5000, 100), (5000, 200), (0, 100)) = 5001"
  "maxHeight ((0, 0), (5000, 100), (5000, 200), (0, 100)) = 100"
proof -
  show "maxWidth ((0, 0), (5000, 100), (5000, 200), (0, 100)) = 5001"
    by (simp add: maxWidth_def slanted_edge_length py_int_def)
  have s: "short_edge (5000, 100) (5000, 200)" "short_edge (0, 0) (0, 100)"
    by (simp_all add: short_edge_def)
  show "maxHeight ((0, 0), (5000, 100), (5000, 200), (0, 100)) = 100"
    unfolding maxHeight_short [OF s] by (simp add: floor_sqrt_10000)
qed

lemma slanted_transform:
  "four_point_transform img [(0, 0), (5000, 100), (5000, 200), (0, 100)] =
     Inr \<lparr>src_rect = ((0, 0), (5000, 100), (5000, 200), (0, 100)),
          dst_rect = ((0, 0), (5000, 0), (5000, 99), (0, 99)),
          dsize = (5001, 100), raster_size = (5001, 100)\<rparr>"
  by (simp add: four_point_transform_def slanted_order slanted_size
      warpPerspective_size_positive)

lemma slanted_spec:
  "spec_destWidth ((0, 0), (5000, 100), (5000, 200), (0, 100)) = 5000"
  "spec_destHeight ((0, 0), (5000, 100), (5000, 200), (0, 100)) = 100"
  by (simp_all add: spec_destWidth_code spec_destHeight_code floor_sqrt_25010000
      floor_sqrt_10000)

subsection \<open>A quadrilateral of width 0\<close>

lemma degenerate_order:
  "order_points [(5, 0), (8, 9), (10, 30), (9, 12)] = Inr ((5, 0), (5, 0), (10, 30), (10, 30))"
  by (simp add: order_points_def argmin_def argmax_def sum_axis1_def diff_axis1_def)

lemma degenerate_size:
  "maxWidth ((5, 0), (5, 0), (10, 30), (10, 30)) = 0"
  "maxHeight ((5, 0), (5, 0), (10, 30), (10, 30)) = 30"
proof -
  have s: "short_edge (10, 30) (10, 30)" "short_edge (5, 0) (5, 0)"
    "short_edge (5, 0) (10, 30)"
    by (simp_all add: short_edge_def)
  show "maxWidth ((5, 0), (5, 0), (10, 30), (10, 30)) = 0"
    unfolding maxWidth_short [OF s(1,2)] by (simp add: floor_sqrt_0)
  show "maxHeight ((5, 0), (5, 0), (10, 30), (10, 30)) = 30"
    unfolding maxHeight_short [OF s(3,3)] by (simp add: floor_sqrt_925)
qed

lemma degenerate_transform:
  "four_point_transform (400, 400) [(5, 0), (8, 9), (10, 30), (9, 12)] =
     Inr \<lparr>src_rect = ((5, 0), (5, 0), (10, 30), (10, 30)),
          dst_rect = ((0, 0), (- 1, 0), (- 1, 29), (0, 29)),
          dsize = (0, 30), raster_size = (400, 400)\<rparr>"
  by (simp add: four_point_transform_def degenerate_order degenerate_size
      warpPerspective_size_def)

lemma degenerate_candidates:
  "2 \<le> length (four_vertex_polygons
      [([(5, 0), (8, 9), (10, 30), (9, 12)], 6), ([(5, 0), (8, 9), (10, 30), (9, 12)], 6)])"
  "descending (four_vertex_widths
      [([(5, 0), (8, 9), (10, 30), (9, 12)], 6), ([(5, 0), (8, 9), (10, 30), (9, 12)], 6)]) ! 0 =
   descending (four_vertex_widths
      [([(5, 0), (8, 9), (10, 30), (9, 12)], 6), ([(5, 0), (8, 9), (10, 30), (9, 12)], 6)]) ! 1"
  "largest_candidate
      [([(5, 0), (8, 9), (10, 30), (9, 12)], 6), ([(5, 0), (8, 9), (10, 30), (9, 12)], 6)] =
   [(5, 0), (8, 9), (10, 30), (9, 12)]"
  by (simp_all add: four_vertex_polygons_def four_vertex_widths_def descending_def
      largest_candidate_def)

lemma degenerate_convert:
  "convert_object (400, 400)
     [([(5, 0), (8, 9), (10, 30), (9, 12)], 6), ([(5, 0), (8, 9), (10, 30), (9, 12)], 6)] None =
     Inr (Some \<lparr>frame = \<lparr>src_rect = ((5, 0), (5, 0), (10, 30), (10, 30)),
                          dst_rect = ((0, 0), (- 1, 0), (- 1, 29), (0, 29)),
                          dsize = (0, 30), raster_size = (400, 400)\<rparr>,
                 out_size = (400, 400)\<rparr>)"
proof -
  have sel: "findLargestCountours
      ([[(5, 0), (8, 9), (10, 30), (9, 12)], [(5, 0), (8, 9), (10, 30), (9, 12)]] :: contour list)
      [6, 6] =
      Inr \<lparr>cntList = [], cntWidths = [],
           newCntList = [[(5, 0), (8, 9), (10, 30), (9, 12)],
                         [(5, 0), (8, 9), (10, 30), (9, 12)]],
           newCntWidths = [6, 6]\<rparr>"
    by (simp add: findLargestCountours_def extract_largest_def py_max_def py_getitem_def
        py_pop_def)
  show ?thesis
    by (simp add: convert_object_def sel py_getitem_def reshape_4_2_def degenerate_order
        degenerate_transform)
qed

section \<open>The destination size and the specification's formula\<close>

text \<open>
  Claim C5. The larger of the two truncated lengths is the floor of the larger length,
  for any two non-negative lengths; the lengths that the code truncates are the
  \<^verbatim>\<open>float32\<close> ones, so \<open>maxWidth\<close> and \<open>maxHeight\<close> are the floors of the larger of
  the two opposing edge lengths as \<^verbatim>\<open>float32\<close> arithmetic computes them. They are the
  specification's \<open>destWidth\<close> and \<open>destHeight\<close>, the floors of the exact Euclidean
  lengths, when no intermediate result is rounded before the square root: the
  coordinates are below \<open>2 ^ 24\<close> in absolute value and each measured edge has a
  squared length below \<open>2 ^ 24\<close> (it is shorter than 4096 pixels).
\<close>

theorem dest_size_matches_spec_when_exact:
  "maxWidth r =
     (case r of (tl', tr', br', bl') \<Rightarrow> \<lfloor>max (edge_length tr' tl') (edge_length br' bl')\<rfloor>) \<and>
   maxHeight r =
     (case r of (tl', tr', br', bl') \<Rightarrow> \<lfloor>max (edge_length tl' bl') (edge_length tr' br')\<rfloor>) \<and>
   (0 \<le> a \<and> 0 \<le> b \<longrightarrow> max (py_int a) (py_int b) = \<lfloor>max a b\<rfloor>) \<and>
   (short_edges r \<longrightarrow> maxWidth r = spec_destWidth r \<and> maxHeight r = spec_destHeight r) \<and>
   (four_point_transform img pts = Inr w \<and> short_edges (src_rect w) \<longrightarrow>
      order_points pts = Inr (src_rect w) \<and>
      dsize w = (spec_destWidth (src_rect w), spec_destHeight (src_rect w)))"
proof (intro conjI impI)
  obtain tl' tr' br' bl' where r: "r = (tl', tr', br', bl')"
    by (cases r)
  show "maxWidth r =
     (case r of (tl', tr', br', bl') \<Rightarrow> \<lfloor>max (edge_length tr' tl') (edge_length br' bl')\<rfloor>)"
    by (simp add: r maxWidth_floor)
  show "maxHeight r =
     (case r of (tl', tr', br', bl') \<Rightarrow> \<lfloor>max (edge_length tl' bl') (edge_length tr' br')\<rfloor>)"
    by (simp add: r maxHeight_floor)
next
  assume "0 \<le> a \<and> 0 \<le> b"
  then show "max (py_int a) (py_int b) = \<lfloor>max a b\<rfloor>"
    by (simp add: max_py_int)
next
  assume s: "short_edges r"
  from short_edges_spec [OF s] show "maxWidth r = spec_destWidth r"
    by simp
  from short_edges_spec [OF s] show "maxHeight r = spec_destHeight r"
    by simp
next
  assume t: "four_point_transform img pts = Inr w \<and> short_edges (src_rect w)"
  then obtain r' where r': "order_points pts = Inr r'"
    by (cases "order_points pts") (simp_all add: four_point_transform_def)
  with t have w: "src_rect w = r'" "dsize w = (maxWidth r', maxHeight r')"
    by (auto simp: four_point_transform_def)
  show "order_points pts = Inr (src_rect w)"
    using r' w by simp
  from t w have "short_edges r'"
    by simp
  from short_edges_spec [OF this]
  show "dsize w = (spec_destWidth (src_rect w), spec_destHeight (src_rect w))"
    using w by simp
qed

theorem dest_size_matches_spec_when_exact_witness:
  "(0 :: real) \<le> 3 / 2 \<and> (0 :: real) \<le> 5 / 2 \<and>
   max (py_int (3 / 2)) (py_int (5 / 2)) = \<lfloor>max (3 / 2 :: real) (5 / 2)\<rfloor> \<and>
   short_edges ((10, 10), (110, 10), (110, 60), (10, 60)) \<and>
   maxWidth ((10, 10), (110, 10), (110, 60), (10, 60)) =
     spec_destWidth ((10, 10), (110, 10), (110, 60), (10, 60)) \<and>
   maxHeight ((10, 10), (110, 10), (110, 60), (10, 60)) =
     spec_destHeight ((10, 10), (110, 10), (110, 60), (10, 60)) \<and>
   four_point_transform (640, 480) [(110, 60), (10, 60), (10, 10), (110, 10)] =
     Inr \<lparr>src_rect = ((10, 10), (110, 10), (110, 60), (10, 60)),
          dst_rect = ((0, 0), (99, 0), (99, 49), (0, 49)),
          dsize = (100, 50), raster_size = (100, 50)\<rparr> \<and>
   (100, 50) = (spec_destWidth ((10, 10), (110, 10), (110, 60), (10, 60)),
                spec_destHeight ((10, 10), (110, 10), (110, 60), (10, 60)))"
proof -
  let ?pts = "[(110, 60), (10, 60), (10, 10), (110, 10)] :: point list"
  let ?r = "((10, 10), (110, 10), (110, 60), (10, 60)) :: rect"
  let ?w = "\<lparr>src_rect = ?r, dst_rect = ((0, 0), (99, 0), (99, 49), (0, 49)),
          dsize = (100, 50), raster_size = (100, 50)\<rparr>"
  have t: "four_point_transform (640, 480) ?pts = Inr ?w"
    by (rule rectangle_transform) auto
  have ab: "(0 :: real) \<le> 3 / 2 \<and> (0 :: real) \<le> 5 / 2"
    by simp
  have s: "short_edges ?r"
    by (simp add: short_edges_def short_edge_def)
  then have s': "short_edges (src_rect ?w)"
    by simp
  from dest_size_matches_spec_when_exact
    [where r = ?r and a = "3 / 2" and b = "5 / 2" and img = "(640, 480)" and pts = ?pts
       and w = ?w] t ab s s'
  have "max (py_int (3 / 2)) (py_int (5 / 2)) = \<lfloor>max (3 / 2 :: real) (5 / 2)\<rfloor>"
    and "maxWidth ?r = spec_destWidth ?r" and "maxHeight ?r = spec_destHeight ?r"
    and "dsize ?w = (spec_destWidth (src_rect ?w), spec_destHeight (src_rect ?w))"
    by blast+
  with t ab s show ?thesis
    by simp
qed

text \<open>
  The specification's wording, equality for every input, fails on the quadrilateral
  \<open>(0,0), (5000,100), (5000,200), (0,100)\<close>: its slanted edges have the squared length
  25010000 and the length 5000.9999; the \<^verbatim>\<open>float32\<close> nearest to that root is 5001, so
  the code asks for a width of 5001 where the formula gives 5000.
\<close>

theorem dest_size_differs_from_spec_counterexample:
  "four_point_transform (5001, 201) [(0, 0), (5000, 100), (5000, 200), (0, 100)] =
     Inr \<lparr>src_rect = ((0, 0), (5000, 100), (5000, 200), (0, 100)),
          dst_rect = ((0, 0), (5000, 0), (5000, 99), (0, 99)),
          dsize = (5001, 100), raster_size = (5001, 100)\<rparr> \<and>
   spec_destWidth ((0, 0), (5000, 100), (5000, 200), (0, 100)) = 5000 \<and>
   spec_destHeight ((0, 0), (5000, 100), (5000, 200), (0, 100)) = 100 \<and>
   maxWidth ((0, 0), (5000, 100), (5000, 200), (0, 100)) \<noteq>
     spec_destWidth ((0, 0), (5000, 100), (5000, 200), (0, 100))"
  by (simp add: slanted_transform slanted_spec slanted_size)

section \<open>The rectangle in any order\<close>

text \<open>
  Claim C6. For the corners \<open>(10,10), (110,10), (110,60), (10,60)\<close> in any of their
  orderings (any list with these four entries), and whatever the source image,
  \<open>four_point_transform\<close> orders them the same way and asks for a warp of size 100 by
  50, within 1 of 100 and of 50, onto the corners \<open>(0,0), (w-1,0), (w-1,h-1), (0,h-1)\<close>
  of that size; the raster that comes back has exactly that size.
\<close>

theorem rectangle_any_order:
  assumes "mset pts = mset [(10, 10), (110, 10), (110, 60), (10, 60)]"
  shows "\<exists>w. four_point_transform img pts = Inr w \<and>
           src_rect w = ((10, 10), (110, 10), (110, 60), (10, 60)) \<and>
           dsize w = (100, 50) \<and>
           \<bar>fst (dsize w) - 100\<bar> \<le> 1 \<and> \<bar>snd (dsize w) - 50\<bar> \<le> 1 \<and>
           dst_rect w = ((0, 0), (fst (dsize w) - 1, 0),
                         (fst (dsize w) - 1, snd (dsize w) - 1), (0, snd (dsize w) - 1)) \<and>
           raster_size w = dsize w"
proof -
  from assms have "set pts = set [(10, 10), (110, 10), (110, 60), (10, 60)]"
    by (rule mset_eq_setD)
  then have "set pts = {(10, 10), (110, 10), (110, 60), (10, 60)}"
    by simp
  from rectangle_transform [OF this] show ?thesis
    by simp
qed

theorem rectangle_any_order_witness:
  "mset ([(110, 60), (10, 60), (10, 10), (110, 10)] :: point list) =
     mset ([(10, 10), (110, 10), (110, 60), (10, 60)] :: point list) \<and>
   (\<exists>w. four_point_transform (640, 480) [(110, 60), (10, 60), (10, 10), (110, 10)] = Inr w \<and>
      dsize w = (100, 50) \<and>
      dst_rect w = ((0, 0), (99, 0), (99, 49), (0, 49)) \<and>
      raster_size w = (100, 50))"
proof -
  have m: "mset [(110, 60), (10, 60), (10, 10), (110, 10)] =
     mset ([(10, 10), (110, 10), (110, 60), (10, 60)] :: point list)"
    by simp
  from rectangle_any_order [OF m, where img = "(640, 480)"] obtain w where
    "four_point_transform (640, 480) [(110, 60), (10, 60), (10, 10), (110, 10)] = Inr w"
    "dsize w = (100, 50)"
    "dst_rect w = ((0, 0), (fst (dsize w) - 1, 0),
                         (fst (dsize w) - 1, snd (dsize w) - 1), (0, snd (dsize w) - 1))"
    "raster_size w = dsize w"
    by blast
  then have "four_point_transform (640, 480) [(110, 60), (10, 60), (10, 10), (110, 10)] = Inr w \<and>
      dsize w = (100, 50) \<and> dst_rect w = ((0, 0), (99, 0), (99, 49), (0, 49)) \<and>
      raster_size w = (100, 50)"
    by simp
  with m show ?thesis
    by blast
qed

section \<open>Rectifying a rectified frame\<close>

text \<open>
  Claim C9. Take a frame of \<open>W\<close> by \<open>H\<close> pixels as the source image, with sides from 1
  to \<open>2 ^ 24\<close> pixels (a side that fits the 24 significant bits of a \<^verbatim>\<open>float32\<close>,
  sixteen times the \<open>2 ^ 20\<close> pixels to which \<^verbatim>\<open>cv2.imread\<close> limits a side), and its
  corners \<open>(0,0), (W-1,0), (W-1,H-1), (0,H-1)\<close> listed in any order.
  \<open>four_point_transform\<close> orders them, measures the sides as \<open>W - 1\<close> and \<open>H - 1\<close>
  without rounding error and asks for a warp of that size. When both sides are at
  least 2 the raster that comes back has that size; when a side is 1 the requested size
  has a zero, and the raster has the size of the source, which is the frame. In both
  cases the width and the height differ from \<open>W\<close> and \<open>H\<close> by at most 1. With sides
  of at least 2 the same holds whatever image the corners are taken from.
\<close>

theorem rectified_frame_again:
  assumes "1 \<le> W" and "W \<le> 2 ^ 24" and "1 \<le> H" and "H \<le> 2 ^ 24"
    and "mset pts = mset [(0, 0), (W - 1, 0), (W - 1, H - 1), (0, H - 1)]"
  shows "(\<exists>w. four_point_transform (W, H) pts = Inr w \<and>
            src_rect w = ((0, 0), (W - 1, 0), (W - 1, H - 1), (0, H - 1)) \<and>
            dsize w = (W - 1, H - 1) \<and>
            raster_size w = (if 2 \<le> W \<and> 2 \<le> H then (W - 1, H - 1) else (W, H)) \<and>
            \<bar>fst (raster_size w) - W\<bar> \<le> 1 \<and> \<bar>snd (raster_size w) - H\<bar> \<le> 1) \<and>
         (2 \<le> W \<and> 2 \<le> H \<longrightarrow>
            (\<exists>w. four_point_transform img pts = Inr w \<and> raster_size w = (W - 1, H - 1)))"
proof -
  from assms(5) have "set pts = set [(0, 0), (W - 1, 0), (W - 1, H - 1), (0, H - 1)]"
    by (rule mset_eq_setD)
  then have s: "set pts = {(0, 0), (W - 1, 0), (W - 1, H - 1), (0, H - 1)}"
    by simp
  note t = frame_transform [OF assms(1,2,3,4) s]
  have big: "warpPerspective_size src (W - 1, H - 1) = (W - 1, H - 1)"
    if "2 \<le> W \<and> 2 \<le> H" for src
    using that by (simp add: warpPerspective_size_def)
  have small: "warpPerspective_size (W, H) (W - 1, H - 1) = (W, H)" if "\<not> (2 \<le> W \<and> 2 \<le> H)"
    using that assms(1,3) by (auto simp: warpPerspective_size_def)
  have own: "warpPerspective_size (W, H) (W - 1, H - 1) =
      (if 2 \<le> W \<and> 2 \<le> H then (W - 1, H - 1) else (W, H))"
    using big [of "(W, H)"] small by simp
  have first: "\<exists>w. four_point_transform (W, H) pts = Inr w \<and>
            src_rect w = ((0, 0), (W - 1, 0), (W - 1, H - 1), (0, H - 1)) \<and>
            dsize w = (W - 1, H - 1) \<and>
            raster_size w = (if 2 \<le> W \<and> 2 \<le> H then (W - 1, H - 1) else (W, H)) \<and>
            \<bar>fst (raster_size w) - W\<bar> \<le> 1 \<and> \<bar>snd (raster_size w) - H\<bar> \<le> 1"
    unfolding t [of "(W, H)"] own by simp
  have second: "\<exists>w. four_point_transform img pts = Inr w \<and> raster_size w = (W - 1, H - 1)"
    if "2 \<le> W \<and> 2 \<le> H"
    unfolding t [of img] big [OF that] by simp
  from first second show ?thesis
    by blast
qed

theorem rectified_frame_again_witness:
  "(1 :: int) \<le> 100 \<and> (100 :: int) \<le> 2 ^ 24 \<and> (1 :: int) \<le> 50 \<and> (50 :: int) \<le> 2 ^ 24 \<and>
   mset ([(99, 49), (0, 0), (0, 49), (99, 0)] :: point list) =
     mset [(0, 0), (100 - 1, 0), (100 - 1, 50 - 1), (0, 50 - 1)] \<and>
   (2 :: int) \<le> 100 \<and> (2 :: int) \<le> 50 \<and>
   (\<exists>w. four_point_transform (100, 50) [(99, 49), (0, 0), (0, 49), (99, 0)] = Inr w \<and>
      src_rect w = ((0, 0), (99, 0), (99, 49), (0, 49)) \<and>
      dsize w = (99, 49) \<and> raster_size w = (99, 49)) \<and>
   (\<exists>w. four_point_transform (640, 480) [(99, 49), (0, 0), (0, 49), (99, 0)] = Inr w \<and>
      raster_size w = (99, 49))"
proof -
  let ?pts = "[(99, 49), (0, 0), (0, 49), (99, 0)] :: point list"
  have a: "(1 :: int) \<le> 100" and b: "(100 :: int) \<le> 2 ^ 24" and c: "(1 :: int) \<le> 50"
    and d: "(50 :: int) \<le> 2 ^ 24"
    by simp_all
  have m: "mset ?pts = mset [(0, 0), (100 - 1, 0), (100 - 1, 50 - 1), (0, 50 - 1)]"
    by simp
  have e: "(2 :: int) \<le> 100 \<and> (2 :: int) \<le> 50"
    by simp
  from rectified_frame_again [OF a b c d m, where img = "(640, 480)"] e
  have "(\<exists>w. four_point_transform (100, 50) ?pts = Inr w \<and>
      src_rect w = ((0, 0), (99, 0), (99, 49), (0, 49)) \<and>
      dsize w = (99, 49) \<and> raster_size w = (99, 49)) \<and>
   (\<exists>w. four_point_transform (640, 480) ?pts = Inr w \<and> raster_size w = (99, 49))"
    by simp blast
  with a b c d m e show ?thesis
    by blast
qed

section \<open>A destination size with a zero\<close>

text \<open>
  Claim C4. Neither \<open>four_point_transform\<close> nor \<open>convert_object\<close> tests the
  destination size. When the ordered corners of the input give a \<open>maxWidth\<close> or a
  \<open>maxHeight\<close> of 0, \<open>four_point_transform\<close> returns as for any other input: it asks
  for a warp of that size onto destination corners with a coordinate \<open>-1\<close>, and since
  the size has a zero the raster that comes back has the size of the source image. When
  that input is the candidate the pipeline selects (at least two four-vertex candidates,
  the two largest widths equal), \<open>convert_object\<close> returns that raster as an image, or
  the image resized to \<^verbatim>\<open>screen_size\<close>, and not \<open>None\<close>.
\<close>

theorem degenerate_size_not_rejected:
  "(order_points pts = Inr r \<and> (maxWidth r = 0 \<or> maxHeight r = 0) \<longrightarrow>
      four_point_transform img pts =
        Inr \<lparr>src_rect = r,
             dst_rect = ((0, 0), (maxWidth r - 1, 0),
                         (maxWidth r - 1, maxHeight r - 1), (0, maxHeight r - 1)),
             dsize = (maxWidth r, maxHeight r), raster_size = img\<rparr> \<and>
      (maxWidth r - 1 = - 1 \<or> maxHeight r - 1 = - 1)) \<and>
   (2 \<le> length (four_vertex_polygons cnts) \<and>
    descending (four_vertex_widths cnts) ! 0 = descending (four_vertex_widths cnts) ! 1 \<and>
    order_points (largest_candidate cnts) = Inr r \<and> (maxWidth r = 0 \<or> maxHeight r = 0) \<longrightarrow>
      convert_object img cnts screen_size =
        Inr (Some \<lparr>frame =
                     \<lparr>src_rect = r,
                      dst_rect = ((0, 0), (maxWidth r - 1, 0),
                                  (maxWidth r - 1, maxHeight r - 1), (0, maxHeight r - 1)),
                      dsize = (maxWidth r, maxHeight r), raster_size = img\<rparr>,
                   out_size = (case screen_size of None \<Rightarrow> img | Some s \<Rightarrow> s)\<rparr>) \<and>
      convert_object img cnts screen_size \<noteq> Inr None)"
proof (intro conjI impI)
  assume h: "order_points pts = Inr r \<and> (maxWidth r = 0 \<or> maxHeight r = 0)"
  then have "warpPerspective_size img (maxWidth r, maxHeight r) = img"
    by (intro warpPerspective_size_empty) simp
  with h show "four_point_transform img pts =
        Inr \<lparr>src_rect = r,
             dst_rect = ((0, 0), (maxWidth r - 1, 0),
                         (maxWidth r - 1, maxHeight r - 1), (0, maxHeight r - 1)),
             dsize = (maxWidth r, maxHeight r), raster_size = img\<rparr>"
    by (simp add: four_point_transform_def)
  from h show "maxWidth r - 1 = - 1 \<or> maxHeight r - 1 = - 1"
    by auto
next
  assume h: "2 \<le> length (four_vertex_polygons cnts) \<and>
    descending (four_vertex_widths cnts) ! 0 = descending (four_vertex_widths cnts) ! 1 \<and>
    order_points (largest_candidate cnts) = Inr r \<and> (maxWidth r = 0 \<or> maxHeight r = 0)"
  let ?cw = "four_vertex_widths cnts"
  let ?f = "\<lparr>src_rect = r,
             dst_rect = ((0, 0), (maxWidth r - 1, 0),
                         (maxWidth r - 1, maxHeight r - 1), (0, maxHeight r - 1)),
             dsize = (maxWidth r, maxHeight r), raster_size = img\<rparr>"
  from h have two: "2 \<le> length (four_vertex_polygons cnts)"
    by simp
  then have "2 \<le> length ?cw"
    by (simp add: four_vertex_lengths)
  from descending_two [OF this] have
    d: "descending ?cw ! 0 = Max (set ?cw)"
       "descending ?cw ! 1 = Max (set (remove1 (Max (set ?cw)) ?cw))"
    by simp_all
  from h have eq: "Max (set ?cw) = Max (set (remove1 (Max (set ?cw)) ?cw))"
    unfolding d by simp
  from h have "warpPerspective_size img (maxWidth r, maxHeight r) = img"
    by (intro warpPerspective_size_empty) simp
  with h have t: "four_point_transform img (largest_candidate cnts) = Inr ?f"
    by (simp add: four_point_transform_def)
  from convert_object_two [OF two, where img = img and screen_size = screen_size]
  obtain c1 w where
    c1: "c1 = largest_candidate cnts" and w: "four_point_transform img c1 = Inr w" and
    res: "convert_object img cnts screen_size =
             (if Max (set ?cw) \<noteq> Max (set (remove1 (Max (set ?cw)) ?cw))
              then Inr None
              else Inr (Some \<lparr>frame = w,
                     out_size = (case screen_size of None \<Rightarrow> raster_size w | Some s \<Rightarrow> s)\<rparr>))"
    by blast
  from c1 w t have "w = ?f"
    by simp
  with res eq have r: "convert_object img cnts screen_size =
      Inr (Some \<lparr>frame = ?f, out_size = (case screen_size of None \<Rightarrow> img | Some s \<Rightarrow> s)\<rparr>)"
    by (cases screen_size) simp_all
  then show "convert_object img cnts screen_size =
      Inr (Some \<lparr>frame = ?f, out_size = (case screen_size of None \<Rightarrow> img | Some s \<Rightarrow> s)\<rparr>)" .
  from r show "convert_object img cnts screen_size \<noteq> Inr None"
    by simp
qed

theorem degenerate_size_not_rejected_witness:
  "order_points [(5, 0), (8, 9), (10, 30), (9, 12)] = Inr ((5, 0), (5, 0), (10, 30), (10, 30)) \<and>
   maxWidth ((5, 0), (5, 0), (10, 30), (10, 30)) = 0 \<and>
   maxHeight ((5, 0), (5, 0), (10, 30), (10, 30)) = 30 \<and>
   2 \<le> length (four_vertex_polygons
      [([(5, 0), (8, 9), (10, 30), (9, 12)], 6), ([(5, 0), (8, 9), (10, 30), (9, 12)], 6)]) \<and>
   descending (four_vertex_widths
      [([(5, 0), (8, 9), (10, 30), (9, 12)], 6), ([(5, 0), (8, 9), (10, 30), (9, 12)], 6)]) ! 0 =
   descending (four_vertex_widths
      [([(5, 0), (8, 9), (10, 30), (9, 12)], 6), ([(5, 0), (8, 9), (10, 30), (9, 12)], 6)]) ! 1 \<and>
   largest_candidate
      [([(5, 0), (8, 9), (10, 30), (9, 12)], 6), ([(5, 0), (8, 9), (10, 30), (9, 12)], 6)] =
     [(5, 0), (8, 9), (10, 30), (9, 12)] \<and>
   four_point_transform (400, 400) [(5, 0), (8, 9), (10, 30), (9, 12)] =
     Inr \<lparr>src_rect = ((5, 0), (5, 0), (10, 30), (10, 30)),
          dst_rect = ((0, 0), (- 1, 0), (- 1, 29), (0, 29)),
          dsize = (0, 30), raster_size = (400, 400)\<rparr> \<and>
   convert_object (400, 400)
     [([(5, 0), (8, 9), (10, 30), (9, 12)], 6), ([(5, 0), (8, 9), (10, 30), (9, 12)], 6)] None =
     Inr (Some \<lparr>frame = \<lparr>src_rect = ((5, 0), (5, 0), (10, 30), (10, 30)),
                          dst_rect = ((0, 0), (- 1, 0), (- 1, 29), (0, 29)),
                          dsize = (0, 30), raster_size = (400, 400)\<rparr>,
                 out_size = (400, 400)\<rparr>)"
proof -
  let ?pts = "[(5, 0), (8, 9), (10, 30), (9, 12)] :: point list"
  let ?r = "((5, 0), (5, 0), (10, 30), (10, 30)) :: rect"
  let ?cnts = "[(?pts, 6), (?pts, 6)] :: (contour \<times> int) list"
  have z: "maxWidth ?r = 0 \<or> maxHeight ?r = 0"
    by (simp add: degenerate_size)
  have lc: "order_points (largest_candidate ?cnts) = Inr ?r"
    by (simp add: degenerate_candidates degenerate_order)
  from degenerate_size_not_rejected
    [where pts = ?pts and r = ?r and img = "(400, 400)" and cnts = ?cnts
       and screen_size = None]
    degenerate_order z lc degenerate_candidates(1,2)
  have "four_point_transform (400, 400) ?pts =
        Inr \<lparr>src_rect = ?r,
             dst_rect = ((0, 0), (maxWidth ?r - 1, 0),
                         (maxWidth ?r - 1, maxHeight ?r - 1), (0, maxHeight ?r - 1)),
             dsize = (maxWidth ?r, maxHeight ?r), raster_size = (400, 400)\<rparr>"
    and "convert_object (400, 400) ?cnts None =
        Inr (Some \<lparr>frame =
                     \<lparr>src_rect = ?r,
                      dst_rect = ((0, 0), (maxWidth ?r - 1, 0),
                                  (maxWidth ?r - 1, maxHeight ?r - 1), (0, maxHeight ?r - 1)),
                      dsize = (maxWidth ?r, maxHeight ?r), raster_size = (400, 400)\<rparr>,
                   out_size = (case None of None \<Rightarrow> (400, 400) | Some s \<Rightarrow> s)\<rparr>)"
    by blast+
  then show ?thesis
    using degenerate_order degenerate_candidates by (simp add: degenerate_size)
qed

text \<open>
  The specification's wording, that such an input is rejected, fails on the quadrilateral
  \<open>(5,0), (8,9), (10,30), (9,12)\<close> in an image of 400 by 400 pixels: its least sum and
  least difference are at the same vertex, and so are its greatest, the ordered corners
  are \<open>(5,0), (5,0), (10,30), (10,30)\<close> and the width is 0. \<open>four_point_transform\<close>
  returns a raster of 400 by 400 pixels, and two such candidates of equal width make
  \<open>convert_object\<close> return it as an image.
\<close>

theorem degenerate_size_rejected_counterexample:
  "maxWidth ((5, 0), (5, 0), (10, 30), (10, 30)) = 0 \<and>
   four_point_transform (400, 400) [(5, 0), (8, 9), (10, 30), (9, 12)] =
     Inr \<lparr>src_rect = ((5, 0), (5, 0), (10, 30), (10, 30)),
          dst_rect = ((0, 0), (- 1, 0), (- 1, 29), (0, 29)),
          dsize = (0, 30), raster_size = (400, 400)\<rparr> \<and>
   convert_object (400, 400)
     [([(5, 0), (8, 9), (10, 30), (9, 12)], 6), ([(5, 0), (8, 9), (10, 30), (9, 12)], 6)] None =
     Inr (Some \<lparr>frame = \<lparr>src_rect = ((5, 0), (5, 0), (10, 30), (10, 30)),
                          dst_rect = ((0, 0), (- 1, 0), (- 1, 29), (0, 29)),
                          dsize = (0, 30), raster_size = (400, 400)\<rparr>,
                 out_size = (400, 400)\<rparr>) \<and>
   convert_object (400, 400)
     [([(5, 0), (8, 9), (10, 30), (9, 12)], 6), ([(5, 0), (8, 9), (10, 30), (9, 12)], 6)] None \<noteq>
     Inr None"
  by (simp add: degenerate_size degenerate_transform degenerate_convert)

end
